theory Spec2Isabelle
  imports Main "HOL-Library.Word"
begin

unbundle bit_operations_syntax

section \<open>The embedded store as the log drives it\<close>

text \<open>
  \<^verbatim>\<open>Log.cc\<close> talks to SQLite through \<^verbatim>\<open>sqlite3_exec\<close>, prepared statements
  (\<^verbatim>\<open>sqlite3_bind_*\<close>, \<^verbatim>\<open>sqlite3_step\<close>) and \<^verbatim>\<open>sqlite3_last_insert_rowid\<close>.
  The engine, the wrapper header \<^verbatim>\<open>raii-sqlite3.hh\<close> and the schema file are not
  among the sources, so this section models them from the specification: three
  tables, store-assigned increasing row identifiers, unique message type names.
  Whether a call is failed by its surroundings (disk, locks, memory) is an input:
  every call takes a \<open>fault\<close>, \<open>None\<close> when the engine carries the call out.
\<close>

datatype sqlite_error =
  SQLITE_ERROR | SQLITE_BUSY | SQLITE_READONLY | SQLITE_IOERR | SQLITE_FULL
  | SQLITE_CANTOPEN | SQLITE_CONSTRAINT | SQLITE_MISUSE

datatype sqlite_rc = SQLITE_OK | SQLITE_DONE | SQLITE_FAIL sqlite_error

type_synonym fault = "sqlite_error option"

datatype sqlite_value = SqlNull | SqlInteger int | SqlText string | SqlBlob "8 word list"

text \<open>The parameters bound to a prepared statement, by index (\<^verbatim>\<open>?001\<close> is index 1).\<close>

type_synonym bindings = "nat \<rightharpoonup> sqlite_value"

text \<open>
  Modelled from the spec: the persisted layout of section 6,
  \<^verbatim>\<open>message_types(id, name unique)\<close>,
  \<^verbatim>\<open>topics(id, name, message_type_id)\<close> and
  \<^verbatim>\<open>messages(time_recv_sec, time_recv_nano, message, topic_id)\<close> with its row id.
  \<open>last_rowid\<close> is what \<^verbatim>\<open>sqlite3_last_insert_rowid\<close> reads; \<open>executed\<close> keeps
  every command handed to \<^verbatim>\<open>sqlite3_exec\<close> with the code it returned.
  The layout names no uniqueness on \<^verbatim>\<open>topics\<close>. Since the schema file is not among
  the sources, \<open>topics_unique\<close> tells whether the schema of the file at hand
  declares the pair \<^verbatim>\<open>(name, message_type_id)\<close> unique all the same; the properties
  below do not depend on it.
\<close>

record sqlite3 =
  message_types_table :: "(int \<times> string) list"
  topics_table :: "(int \<times> string \<times> int) list"
  messages_table :: "(int \<times> int \<times> int \<times> 8 word list \<times> int) list"
  last_rowid :: int
  executed :: "(string \<times> sqlite_rc) list"
  topics_unique :: bool

text \<open>
  Modelled from the spec: row identifiers are store-assigned, monotonically
  increasing integers. They are 64-bit signed (\<^verbatim>\<open>sqlite3_int64\<close>); when the
  largest one is taken no larger one can be assigned and the insert fails.
\<close>

definition MAX_ROWID :: int where
  "MAX_ROWID = 9223372036854775807"

definition next_rowid :: "int list \<Rightarrow> int" where
  "next_rowid ids = (if ids = [] then 1 else Max (set ids) + 1)"

definition assign_rowid :: "int list \<Rightarrow> int option" where
  "assign_rowid ids = (if next_rowid ids > MAX_ROWID then None else Some (next_rowid ids))"

text \<open>
  Modelled from the spec: \<^verbatim>\<open>sqlite3_exec\<close> on a connection handle. A null handle
  (the connection was never established) is refused with \<^verbatim>\<open>SQLITE_MISUSE\<close>.
  The log only executes \<^verbatim>\<open>BEGIN;\<close>, \<^verbatim>\<open>END;\<close> and the schema text this way.
\<close>

definition sqlite3_exec :: "sqlite3 option \<Rightarrow> string \<Rightarrow> fault \<Rightarrow> sqlite_rc \<times> sqlite3 option" where
  "sqlite3_exec h sql f =
     (case h of
        None \<Rightarrow> (SQLITE_FAIL SQLITE_MISUSE, None)
      | Some d \<Rightarrow>
          (let rc = (case f of None \<Rightarrow> SQLITE_OK | Some e \<Rightarrow> SQLITE_FAIL e)
           in (rc, Some (d\<lparr>executed := executed d @ [(sql, rc)]\<rparr>))))"

text \<open>
  Modelled from the spec: binding a value to a parameter of a prepared statement. A
  call that fails leaves the statement as it was.
\<close>

definition sqlite3_bind_text :: "bindings \<Rightarrow> nat \<Rightarrow> string \<Rightarrow> fault \<Rightarrow> sqlite_rc \<times> bindings" where
  "sqlite3_bind_text st i txt f =
     (case f of Some e \<Rightarrow> (SQLITE_FAIL e, st) | None \<Rightarrow> (SQLITE_OK, st(i \<mapsto> SqlText txt)))"

text \<open>\<^verbatim>\<open>sqlite3_bind_int\<close> takes a C \<^verbatim>\<open>int\<close>: the value bound is a signed 32-bit one.\<close>

definition sqlite3_bind_int :: "bindings \<Rightarrow> nat \<Rightarrow> 32 word \<Rightarrow> fault \<Rightarrow> sqlite_rc \<times> bindings" where
  "sqlite3_bind_int st i v f =
     (case f of Some e \<Rightarrow> (SQLITE_FAIL e, st) | None \<Rightarrow> (SQLITE_OK, st(i \<mapsto> SqlInteger (sint v))))"

definition sqlite3_bind_blob :: "bindings \<Rightarrow> nat \<Rightarrow> 8 word list \<Rightarrow> fault \<Rightarrow> sqlite_rc \<times> bindings" where
  "sqlite3_bind_blob st i bytes f =
     (case f of Some e \<Rightarrow> (SQLITE_FAIL e, st) | None \<Rightarrow> (SQLITE_OK, st(i \<mapsto> SqlBlob bytes)))"

text \<open>
  Modelled from the spec: one step of
  \<^verbatim>\<open>INSERT OR IGNORE INTO message_types (name) VALUES (?001);\<close>.
  The name is unique: a name already present is ignored and the step is still done.
\<close>

definition step_message_type :: "sqlite3 \<Rightarrow> bindings \<Rightarrow> fault \<Rightarrow> sqlite_rc \<times> sqlite3" where
  "step_message_type d st f =
     (case f of
        Some e \<Rightarrow> (SQLITE_FAIL e, d)
      | None \<Rightarrow>
          (case st 1 of
             Some (SqlText ty) \<Rightarrow>
               if ty \<in> snd ` set (message_types_table d) then (SQLITE_DONE, d)
               else (case assign_rowid (map fst (message_types_table d)) of
                       None \<Rightarrow> (SQLITE_FAIL SQLITE_FULL, d)
                     | Some r \<Rightarrow>
                         (SQLITE_DONE,
                          d\<lparr>message_types_table := message_types_table d @ [(r, ty)],
                            last_rowid := r\<rparr>))
           | _ \<Rightarrow> (SQLITE_FAIL SQLITE_ERROR, d)))"

text \<open>
  Modelled from the spec: one step of
  \<^verbatim>\<open>INSERT INTO topics (name, message_type_id) SELECT ?002, id FROM message_types WHERE name = ?001 LIMIT 1;\<close>.
  When no message type has the name the selection is empty: nothing is inserted,
  the step is done all the same and the last insert row id keeps its old value.
  Where the schema declares the pair unique, a second row for a pair is refused
  with \<^verbatim>\<open>SQLITE_CONSTRAINT\<close>.
\<close>

definition step_topic :: "sqlite3 \<Rightarrow> bindings \<Rightarrow> fault \<Rightarrow> sqlite_rc \<times> sqlite3" where
  "step_topic d st f =
     (case f of
        Some e \<Rightarrow> (SQLITE_FAIL e, d)
      | None \<Rightarrow>
          (case (st 1, st 2) of
             (Some (SqlText ty), Some (SqlText nm)) \<Rightarrow>
               (case filter (\<lambda>r. snd r = ty) (message_types_table d) of
                  [] \<Rightarrow> (SQLITE_DONE, d)
                | r # _ \<Rightarrow>
                    if topics_unique d \<and> (nm, fst r) \<in> snd ` set (topics_table d)
                    then (SQLITE_FAIL SQLITE_CONSTRAINT, d)
                    else
                      (case assign_rowid (map fst (topics_table d)) of
                         None \<Rightarrow> (SQLITE_FAIL SQLITE_FULL, d)
                       | Some i \<Rightarrow>
                           (SQLITE_DONE,
                            d\<lparr>topics_table := topics_table d @ [(i, nm, fst r)],
                              last_rowid := i\<rparr>)))
           | _ \<Rightarrow> (SQLITE_FAIL SQLITE_ERROR, d)))"

text \<open>
  Modelled from the spec: one step of
  \<^verbatim>\<open>INSERT INTO messages (time_recv_sec, time_recv_nano, message, topic_id) VALUES (?001, ?002, ?003, ?004);\<close>.
  The reference from \<^verbatim>\<open>topic_id\<close> to \<^verbatim>\<open>topics\<close> is not enforced by the engine
  (SQLite's default).
\<close>

definition step_message :: "sqlite3 \<Rightarrow> bindings \<Rightarrow> fault \<Rightarrow> sqlite_rc \<times> sqlite3" where
  "step_message d st f =
     (case f of
        Some e \<Rightarrow> (SQLITE_FAIL e, d)
      | None \<Rightarrow>
          (case (st 1, st 2, st 3, st 4) of
             (Some (SqlInteger s), Some (SqlInteger n), Some (SqlBlob m), Some (SqlInteger t)) \<Rightarrow>
               (case assign_rowid (map fst (messages_table d)) of
                  None \<Rightarrow> (SQLITE_FAIL SQLITE_FULL, d)
                | Some i \<Rightarrow>
                    (SQLITE_DONE,
                     d\<lparr>messages_table := messages_table d @ [(i, s, n, m, t)],
                       last_rowid := i\<rparr>))
           | _ \<Rightarrow> (SQLITE_FAIL SQLITE_ERROR, d)))"

text \<open>\<^verbatim>\<open>sqlite3_last_insert_rowid\<close> returns a \<^verbatim>\<open>sqlite3_int64\<close>.\<close>

definition sqlite3_last_insert_rowid :: "sqlite3 \<Rightarrow> 64 word" where
  "sqlite3_last_insert_rowid d = word_of_int (last_rowid d)"

text \<open>
  Modelled from the spec: the connection wrapper \<^verbatim>\<open>raii_sqlite3::Database\<close>. It owns
  the handle; the handle is null when the connection could not be established, and
  the wrapper then converts to \<^verbatim>\<open>false\<close>.
\<close>

datatype Database = Database (Handle: "sqlite3 option")

section \<open>The private state of a log\<close>

text \<open>
  \<^verbatim>\<open>class LogPrivate\<close>. \<open>db\<close> is the \<^verbatim>\<open>unique_ptr\<close>, \<open>None\<close> when null.
  Instants of the steady clock and \<open>lastTransaction\<close> count nanoseconds;
  \<open>transactionPeriod\<close> counts milliseconds.
\<close>

record LogPrivate =
  db :: "Database option"
  inTransaction :: bool
  topics :: "(string \<times> string) \<rightharpoonup> 64 word"
  lastTransaction :: int
  transactionPeriod :: int

text \<open>
  The methods dereference \<open>db\<close> without a check. On a null pointer the behaviour is
  undefined: the model returns \<open>None\<close> there and \<open>Some\<close> of the result and of the
  new state everywhere else.
\<close>

definition EndTransaction :: "LogPrivate \<Rightarrow> fault \<Rightarrow> (bool \<times> LogPrivate) option" where
  "EndTransaction this f =
     (case db this of
        None \<Rightarrow> None
      | Some dbw \<Rightarrow>
          (let (returnCode, h) = sqlite3_exec (Handle dbw) ''END;'' f;
               this1 = this\<lparr>db := Some (Database h)\<rparr>
           in if returnCode \<noteq> SQLITE_OK then Some (False, this1)
              else Some (True, this1\<lparr>inTransaction := False\<rparr>)))"

definition BeginTransaction :: "LogPrivate \<Rightarrow> fault \<Rightarrow> int \<Rightarrow> (bool \<times> LogPrivate) option" where
  "BeginTransaction this f now =
     (case db this of
        None \<Rightarrow> None
      | Some dbw \<Rightarrow>
          (let (returnCode, h) = sqlite3_exec (Handle dbw) ''BEGIN;'' f;
               this1 = this\<lparr>db := Some (Database h)\<rparr>
           in if returnCode \<noteq> SQLITE_OK then Some (False, this1)
              else Some (True, this1\<lparr>inTransaction := True, lastTransaction := now\<rparr>)))"

definition TimeForNewTransaction :: "LogPrivate \<Rightarrow> int \<Rightarrow> bool" where
  "TimeForNewTransaction this now =
     (now - transactionPeriod this * 1000000 > lastTransaction this)"

text \<open>What the surroundings decide during one \<^verbatim>\<open>LogPrivate::TopicId\<close>, call by call.\<close>

record topic_env =
  compile_message_type :: bool
  compile_topic :: bool
  bind_message_type_1 :: fault
  bind_message_type_2 :: fault
  bind_topic_name :: fault
  step_message_type_fault :: fault
  step_topic_fault :: fault

definition TopicId ::
  "LogPrivate \<Rightarrow> string \<Rightarrow> string \<Rightarrow> topic_env \<Rightarrow> (64 word \<times> LogPrivate) option" where
  "TopicId this name type env =
     (let key = (name, type) in
      case topics this key of
        Some cached \<Rightarrow> Some (cached, this)
      | None \<Rightarrow>
          (case db this of
             None \<Rightarrow> None
           | Some dbw \<Rightarrow>
               (case Handle dbw of
                  None \<Rightarrow> Some (- 1, this)
                | Some d \<Rightarrow>
                    if \<not> compile_message_type env then Some (- 1, this)
                    else if \<not> compile_topic env then Some (- 1, this)
                    else
                      let (rc1, message_type_statement) =
                            sqlite3_bind_text Map.empty 1 type (bind_message_type_1 env)
                      in if rc1 \<noteq> SQLITE_OK then Some (- 1, this)
                      else
                        let (rc2, topic_statement1) =
                              sqlite3_bind_text Map.empty 1 type (bind_message_type_2 env)
                        in if rc2 \<noteq> SQLITE_OK then Some (- 1, this)
                        else
                          let (rc3, topic_statement) =
                                sqlite3_bind_text topic_statement1 2 name (bind_topic_name env)
                          in if rc3 \<noteq> SQLITE_OK then Some (- 1, this)
                          else
                            let (rc4, d1) =
                                  step_message_type d message_type_statement
                                    (step_message_type_fault env)
                            in if rc4 \<noteq> SQLITE_DONE
                               then Some (- 1, this\<lparr>db := Some (Database (Some d1))\<rparr>)
                            else
                              let (rc5, d2) = step_topic d1 topic_statement (step_topic_fault env)
                              in if rc5 \<noteq> SQLITE_DONE
                                 then Some (- 1, this\<lparr>db := Some (Database (Some d2))\<rparr>)
                              else
                                let id = sqlite3_last_insert_rowid d2
                                in Some (id, this\<lparr>db := Some (Database (Some d2)),
                                                  topics := (topics this)(key \<mapsto> id)\<rparr>))))"

text \<open>
  \<^verbatim>\<open>ignition::common::Time\<close> holds two 32-bit signed fields. The payload is the
  \<^verbatim>\<open>_len\<close> bytes at \<^verbatim>\<open>_data\<close>.
\<close>

record Time =
  sec :: "32 word"
  nsec :: "32 word"

record message_env =
  compile_message :: bool
  bind_sec :: fault
  bind_nsec :: fault
  bind_data :: fault
  bind_topic_id :: fault
  step_message_fault :: fault

text \<open>
  \<^verbatim>\<open>LogPrivate::InsertMessage\<close>. The topic arrives as an \<^verbatim>\<open>int64_t\<close> and is handed
  to \<^verbatim>\<open>sqlite3_bind_int\<close>, whose parameter is an \<^verbatim>\<open>int\<close>: the conversion keeps the
  low 32 bits.
\<close>

definition LogPrivate_InsertMessage ::
  "LogPrivate \<Rightarrow> Time \<Rightarrow> 64 word \<Rightarrow> 8 word list \<Rightarrow> message_env \<Rightarrow> (bool \<times> LogPrivate) option" where
  "LogPrivate_InsertMessage this time topic data env =
     (case db this of
        None \<Rightarrow> None
      | Some dbw \<Rightarrow>
          (case Handle dbw of
             None \<Rightarrow> Some (False, this)
           | Some d \<Rightarrow>
               if \<not> compile_message env then Some (False, this)
               else
                 let (rc1, st1) = sqlite3_bind_int Map.empty 1 (sec time) (bind_sec env)
                 in if rc1 \<noteq> SQLITE_OK then Some (False, this)
                 else
                   let (rc2, st2) = sqlite3_bind_int st1 2 (nsec time) (bind_nsec env)
                   in if rc2 \<noteq> SQLITE_OK then Some (False, this)
                   else
                     let (rc3, st3) = sqlite3_bind_blob st2 3 data (bind_data env)
                     in if rc3 \<noteq> SQLITE_OK then Some (False, this)
                     else
                       let (rc4, st4) = sqlite3_bind_int st3 4 (ucast topic) (bind_topic_id env)
                       in if rc4 \<noteq> SQLITE_OK then Some (False, this)
                       else
                         let (rc5, d1) = step_message d st4 (step_message_fault env);
                             this1 = this\<lparr>db := Some (Database (Some d1))\<rparr>
                         in if rc5 \<noteq> SQLITE_DONE then Some (False, this1)
                            else Some (True, this1)))"

section \<open>The public log\<close>

text \<open>\<^verbatim>\<open>Log::Log()\<close>: a null database pointer and two transactions per second.\<close>

definition Log :: LogPrivate where
  "Log = \<lparr>db = None, inTransaction = False, topics = Map.empty,
          lastTransaction = 0, transactionPeriod = 500\<rparr>"

text \<open>\<^verbatim>\<open>Log::~Log()\<close>: the result of \<^verbatim>\<open>EndTransaction\<close> is dropped.\<close>

definition Log_destructor :: "LogPrivate \<Rightarrow> fault \<Rightarrow> LogPrivate option" where
  "Log_destructor this f =
     (if inTransaction this
      then (case EndTransaction this f of None \<Rightarrow> None | Some (_, this1) \<Rightarrow> Some this1)
      else Some this)"

text \<open>
  Modelled from the spec: the open modes are declared in \<^verbatim>\<open>Log.hh\<close>, which is not
  among the sources; they are three distinct enumerators, numbered in the order the
  specification lists them. The \<^verbatim>\<open>SQLITE_OPEN_*\<close> flags are SQLite's.
\<close>

definition READ :: int where "READ = 0"
definition READ_WRITE :: int where "READ_WRITE = 1"
definition READ_WRITE_CREATE :: int where "READ_WRITE_CREATE = 2"

definition SQLITE_OPEN_READONLY :: int where "SQLITE_OPEN_READONLY = 1"
definition SQLITE_OPEN_READWRITE :: int where "SQLITE_OPEN_READWRITE = 2"
definition SQLITE_OPEN_CREATE :: int where "SQLITE_OPEN_CREATE = 4"

text \<open>
  What the surroundings decide during one \<^verbatim>\<open>Log::Open\<close>: the connection that
  \<^verbatim>\<open>sqlite3_open_v2\<close> establishes for a path and its flags (\<open>None\<close> when it cannot),
  whether the schema file opens, the value \<^verbatim>\<open>tellg()\<close> gives for its length (\<open>- 1\<close>
  when the stream cannot tell), the bytes the buffer holds after the read, whether
  the stream is still good after the read, and whether the engine fails the schema.
\<close>

record open_env =
  sqlite3_open_v2 :: "string \<Rightarrow> int \<Rightarrow> sqlite3 option"
  schema_opens :: bool
  schema_length :: int
  schema_buffer :: string
  schema_reads :: bool
  schema_fault :: fault

text \<open>
  Two ways in which \<^verbatim>\<open>Log::Open\<close> does not return. \<^verbatim>\<open>new char[length]\<close> throws when
  \<^verbatim>\<open>length\<close> is negative, and nothing catches it. \<^verbatim>\<open>schema = buffer\<close> copies a C
  string, up to the first NUL byte; the buffer has exactly \<^verbatim>\<open>length\<close> bytes and no
  terminator of its own, so when none of its bytes is NUL the copy reads past its
  end, which is undefined.
\<close>

datatype Open_abort = Throws_bad_array_new_length | Reads_past_buffer

definition NUL :: char where
  "NUL = CHR 0x00"

text \<open>
  The part of \<^verbatim>\<open>Log::Open\<close> after the \<^verbatim>\<open>switch\<close>, with \<^verbatim>\<open>modeSQL\<close> chosen. The text
  handed to the engine is the buffer up to its first NUL byte. The test of the
  stream after the read comes after the allocation and the copy, as in the source.
\<close>

definition Open_connect ::
  "LogPrivate \<Rightarrow> string \<Rightarrow> int \<Rightarrow> open_env \<Rightarrow> Open_abort + bool \<times> LogPrivate" where
  "Open_connect this file modeSQL env =
     (let dbw = Database (sqlite3_open_v2 env file modeSQL);
          this1 = this\<lparr>db := Some dbw\<rparr>
      in if Handle dbw = None then Inr (True, this1)
         else if \<not> schema_opens env then Inr (False, this1)
         else
           let length = schema_length env
           in if length < 0 then Inl Throws_bad_array_new_length
              else
                let buffer = take (nat length) (schema_buffer env)
                in if NUL \<notin> set buffer then Inl Reads_past_buffer
                   else
                     let schema = takeWhile (\<lambda>c. c \<noteq> NUL) buffer
                     in if \<not> schema_reads env then Inr (False, this1)
                        else
                          let (returnCode, h) =
                                sqlite3_exec (Handle dbw) schema (schema_fault env);
                              this2 = this\<lparr>db := Some (Database h)\<rparr>
                          in if returnCode \<noteq> SQLITE_OK then Inr (False, this2)
                             else Inr (True, this2))"

definition Log_Open ::
  "LogPrivate \<Rightarrow> string \<Rightarrow> int \<Rightarrow> open_env \<Rightarrow> Open_abort + bool \<times> LogPrivate" where
  "Log_Open this file mode env =
     (if db this \<noteq> None then Inr (False, this)
      else if mode = READ then Open_connect this file SQLITE_OPEN_READONLY env
      else if mode = READ_WRITE then Open_connect this file SQLITE_OPEN_READWRITE env
      else if mode = READ_WRITE_CREATE
        then Open_connect this file (SQLITE_OPEN_READWRITE OR SQLITE_OPEN_CREATE) env
      else Inr (False, this))"

text \<open>
  What the surroundings decide during one \<^verbatim>\<open>Log::InsertMessage\<close>: the faults of
  the calls it makes and the two readings of the steady clock, the one
  \<^verbatim>\<open>BeginTransaction\<close> takes and the one \<^verbatim>\<open>TimeForNewTransaction\<close> takes.
\<close>

record insert_env =
  begin_fault :: fault
  begin_now :: int
  topic_calls :: topic_env
  message_calls :: message_env
  check_now :: int
  end_fault :: fault

definition Log_InsertMessage ::
  "LogPrivate \<Rightarrow> Time \<Rightarrow> string \<Rightarrow> string \<Rightarrow> 8 word list \<Rightarrow> insert_env
     \<Rightarrow> (bool \<times> LogPrivate) option" where
  "Log_InsertMessage this time topic type data env =
     (case (if inTransaction this then Some (True, this)
            else BeginTransaction this (begin_fault env) (begin_now env)) of
        None \<Rightarrow> None
      | Some (active, this1) \<Rightarrow>
          if \<not> active then Some (False, this1)
          else
            (case TopicId this1 topic type (topic_calls env) of
               None \<Rightarrow> None
             | Some (topicId, this2) \<Rightarrow>
                 if topicId <s 0 then Some (False, this2)
                 else
                   (case LogPrivate_InsertMessage this2 time topicId data (message_calls env) of
                      None \<Rightarrow> None
                    | Some (inserted, this3) \<Rightarrow>
                        if \<not> inserted then Some (False, this3)
                        else if TimeForNewTransaction this3 (check_now env)
                        then (case EndTransaction this3 (end_fault env) of
                                None \<Rightarrow> None
                              | Some (_, this4) \<Rightarrow> Some (True, this4))
                        else Some (True, this3))))"

section \<open>Notions the properties are stated with\<close>

text \<open>The commands a log has handed to \<^verbatim>\<open>sqlite3_exec\<close> so far, each with its outcome.\<close>

definition exec_trace :: "LogPrivate \<Rightarrow> (string \<times> sqlite_rc) list" where
  "exec_trace this =
     (case db this of
        Some (Database (Some d)) \<Rightarrow> executed d
      | _ \<Rightarrow> [])"

text \<open>The commands of a given text among the entries of a trace.\<close>

definition issued :: "string \<Rightarrow> (string \<times> sqlite_rc) list \<Rightarrow> nat" where
  "issued sql tr = length (filter (\<lambda>e. fst e = sql) tr)"

text \<open>
  Whether a transaction is open after a trace of commands, going by their outcomes
  alone: a begin that succeeded opens one, an end that succeeded closes it, a failed
  command changes nothing.
\<close>

definition txn_step :: "bool \<Rightarrow> string \<times> sqlite_rc \<Rightarrow> bool" where
  "txn_step open e =
     (if e = (''BEGIN;'', SQLITE_OK) then True
      else if e = (''END;'', SQLITE_OK) then False
      else open)"

definition txn_open :: "(string \<times> sqlite_rc) list \<Rightarrow> bool" where
  "txn_open tr = foldl txn_step False tr"

definition flag_matches :: "LogPrivate \<Rightarrow> bool" where
  "flag_matches this = (inTransaction this = txn_open (exec_trace this))"

text \<open>The code \<^verbatim>\<open>sqlite3_exec\<close> returns on a live connection, given the fault.\<close>

definition exec_rc :: "fault \<Rightarrow> sqlite_rc" where
  "exec_rc f = (case f of None \<Rightarrow> SQLITE_OK | Some e \<Rightarrow> SQLITE_FAIL e)"

text \<open>The log holds a database wrapper whose connection was established.\<close>

definition connected :: "LogPrivate \<Rightarrow> bool" where
  "connected this = (case db this of Some (Database (Some d)) \<Rightarrow> True | _ \<Rightarrow> False)"

text \<open>The store a log is connected to, and the three tables a database file holds.\<close>

definition store_of :: "LogPrivate \<Rightarrow> sqlite3 option" where
  "store_of this = (case db this of None \<Rightarrow> None | Some dbw \<Rightarrow> Handle dbw)"

definition tables ::
  "sqlite3 \<Rightarrow> (int \<times> string) list \<times> (int \<times> string \<times> int) list
     \<times> (int \<times> int \<times> int \<times> 8 word list \<times> int) list" where
  "tables d = (message_types_table d, topics_table d, messages_table d)"


text \<open>
  The first step of \<^verbatim>\<open>Log::InsertMessage\<close> on its own: a transaction is begun unless
  one is active; the result tells whether one is active afterwards.
\<close>

definition EnsureActive :: "LogPrivate \<Rightarrow> insert_env \<Rightarrow> (bool \<times> LogPrivate) option" where
  "EnsureActive this env =
     (if inTransaction this then Some (True, this)
      else BeginTransaction this (begin_fault env) (begin_now env))"

text \<open>
  Every call that \<^verbatim>\<open>TopicId\<close> makes on a cache miss succeeds: both statements
  compile, the three parameters bind, and both steps, the message type's and then
  the topic's, return \<^verbatim>\<open>SQLITE_DONE\<close>. On a null handle no statement compiles.
\<close>

definition TopicId_calls_succeed :: "sqlite3 option \<Rightarrow> string \<Rightarrow> string \<Rightarrow> topic_env \<Rightarrow> bool" where
  "TopicId_calls_succeed h name type env =
     (case h of
        None \<Rightarrow> False
      | Some d \<Rightarrow>
          compile_message_type env \<and> compile_topic env \<and>
          bind_message_type_1 env = None \<and> bind_message_type_2 env = None \<and>
          bind_topic_name env = None \<and>
          fst (step_message_type d [1 \<mapsto> SqlText type] (step_message_type_fault env))
            = SQLITE_DONE \<and>
          fst (step_topic
                 (snd (step_message_type d [1 \<mapsto> SqlText type] (step_message_type_fault env)))
                 [1 \<mapsto> SqlText type, 2 \<mapsto> SqlText name] (step_topic_fault env))
            = SQLITE_DONE)"

text \<open>Resolving the same pair again and again, once per element of the list.\<close>

fun TopicId_repeat ::
  "LogPrivate \<Rightarrow> string \<Rightarrow> string \<Rightarrow> topic_env list \<Rightarrow> (64 word list \<times> LogPrivate) option" where
  "TopicId_repeat this name type [] = Some ([], this)"
| "TopicId_repeat this name type (env # envs) =
     (case TopicId this name type env of
        None \<Rightarrow> None
      | Some (r, this1) \<Rightarrow>
          (case TopicId_repeat this1 name type envs of
             None \<Rightarrow> None
           | Some (rs, this2) \<Rightarrow> Some (r # rs, this2)))"

text \<open>
  A run of \<^verbatim>\<open>Log::InsertMessage\<close> calls on one log, each with its arguments and its
  surroundings; the results are collected in order.
\<close>

type_synonym insert_call = "Time \<times> string \<times> string \<times> 8 word list \<times> insert_env"

definition call_env :: "insert_call \<Rightarrow> insert_env" where
  "call_env c = snd (snd (snd (snd c)))"

fun InsertMessages :: "LogPrivate \<Rightarrow> insert_call list \<Rightarrow> (bool list \<times> LogPrivate) option" where
  "InsertMessages this [] = Some ([], this)"
| "InsertMessages this ((time, topic, type, data, env) # cs) =
     (case Log_InsertMessage this time topic type data env of
        None \<Rightarrow> None
      | Some (r, this1) \<Rightarrow>
          (case InsertMessages this1 cs of
             None \<Rightarrow> None
           | Some (rs, this2) \<Rightarrow> Some (r # rs, this2)))"

text \<open>
  Everything that can be called on a log while it lives: the methods of
  \<^verbatim>\<open>LogPrivate\<close>, \<^verbatim>\<open>Log::Open\<close> and \<^verbatim>\<open>Log::InsertMessage\<close>, each with its arguments
  and its surroundings. \<open>call\<close> gives the state a call leaves, \<open>None\<close> when the call
  does not return; \<open>calls\<close> runs a list of them in order.
\<close>

datatype log_call =
    Call_BeginTransaction fault int
  | Call_EndTransaction fault
  | Call_TopicId string string topic_env
  | Call_LogPrivate_InsertMessage Time "64 word" "8 word list" message_env
  | Call_Open string int open_env
  | Call_InsertMessage Time string string "8 word list" insert_env

fun call :: "LogPrivate \<Rightarrow> log_call \<Rightarrow> LogPrivate option" where
  "call this (Call_BeginTransaction f now) = map_option snd (BeginTransaction this f now)"
| "call this (Call_EndTransaction f) = map_option snd (EndTransaction this f)"
| "call this (Call_TopicId name type env) = map_option snd (TopicId this name type env)"
| "call this (Call_LogPrivate_InsertMessage time topic data env) =
     map_option snd (LogPrivate_InsertMessage this time topic data env)"
| "call this (Call_Open file mode env) =
     (case Log_Open this file mode env of Inl _ \<Rightarrow> None | Inr (_, this1) \<Rightarrow> Some this1)"
| "call this (Call_InsertMessage time topic type data env) =
     map_option snd (Log_InsertMessage this time topic type data env)"

fun calls :: "LogPrivate \<Rightarrow> log_call list \<Rightarrow> LogPrivate option" where
  "calls this [] = Some this"
| "calls this (c # cs) = (case call this c of None \<Rightarrow> None | Some this1 \<Rightarrow> calls this1 cs)"

text \<open>
  The rows a pair owns in a store: the topics rows that carry the topic name and
  refer to a message type row of the type name, and the message type rows of the
  type name.
\<close>

definition pair_rows :: "sqlite3 \<Rightarrow> string \<Rightarrow> string \<Rightarrow> (int \<times> string \<times> int) list" where
  "pair_rows d name type =
     filter (\<lambda>row. fst (snd row) = name \<and> (snd (snd row), type) \<in> set (message_types_table d))
       (topics_table d)"

definition type_rows :: "sqlite3 \<Rightarrow> string \<Rightarrow> (int \<times> string) list" where
  "type_rows d type = filter (\<lambda>row. snd row = type) (message_types_table d)"

definition rows_of ::
  "LogPrivate \<Rightarrow> string \<Rightarrow> string \<Rightarrow> ((int \<times> string \<times> int) list \<times> (int \<times> string) list) option" where
  "rows_of this name type =
     (case store_of this of
        None \<Rightarrow> None
      | Some d \<Rightarrow> Some (pair_rows d name type, type_rows d type))"

text \<open>
  A well-formed store: the topics rows carry distinct identifiers that the store
  could have assigned, and the message type rows distinct identifiers and distinct
  names.
\<close>

definition store_wf :: "sqlite3 \<Rightarrow> bool" where
  "store_wf d =
     (distinct (map fst (topics_table d)) \<and>
      list_all (\<lambda>i. 1 \<le> i \<and> i \<le> MAX_ROWID) (map fst (topics_table d)) \<and>
      distinct (map fst (message_types_table d)) \<and>
      distinct (map snd (message_types_table d)))"

text \<open>
  Cache coherence: every cached id is the identifier of a topics row of the store
  that carries the cached topic name and refers to the message type row of the
  cached type name.
\<close>

definition cache_coherent :: "sqlite3 \<Rightarrow> ((string \<times> string) \<rightharpoonup> 64 word) \<Rightarrow> bool" where
  "cache_coherent d cache =
     (\<forall>name type cached. cache (name, type) = Some cached \<longrightarrow>
        (\<exists>mt. (sint cached, name, mt) \<in> set (topics_table d) \<and>
              (mt, type) \<in> set (message_types_table d)))"

definition log_inv :: "LogPrivate \<Rightarrow> bool" where
  "log_inv this =
     (case db this of
        Some (Database (Some d)) \<Rightarrow> store_wf d \<and> cache_coherent d (topics this)
      | _ \<Rightarrow> False)"

section \<open>Sample stores, logs and surroundings\<close>

text \<open>A store right after the schema was applied to a new file, and quiet surroundings.\<close>

definition new_store :: sqlite3 where
  "new_store = \<lparr>message_types_table = [], topics_table = [], messages_table = [],
                last_rowid = 0, executed = [], topics_unique = False\<rparr>"

definition opened_log :: LogPrivate where
  "opened_log = Log\<lparr>db := Some (Database (Some new_store))\<rparr>"

definition quiet_topic :: topic_env where
  "quiet_topic = \<lparr>compile_message_type = True, compile_topic = True,
     bind_message_type_1 = None, bind_message_type_2 = None, bind_topic_name = None,
     step_message_type_fault = None, step_topic_fault = None\<rparr>"

definition quiet_message :: message_env where
  "quiet_message = \<lparr>compile_message = True, bind_sec = None, bind_nsec = None,
     bind_data = None, bind_topic_id = None, step_message_fault = None\<rparr>"

definition quiet_insert :: "int \<Rightarrow> int \<Rightarrow> insert_env" where
  "quiet_insert t0 t1 = \<lparr>begin_fault = None, begin_now = t0, topic_calls = quiet_topic,
     message_calls = quiet_message, check_now = t1, end_fault = None\<rparr>"

text \<open>Surroundings in which no connection can be established.\<close>

definition no_connection :: open_env where
  "no_connection = \<lparr>sqlite3_open_v2 = (\<lambda>file flags. None), schema_opens = True,
     schema_length = 0, schema_buffer = [], schema_reads = True, schema_fault = None\<rparr>"

text \<open>
  A schema file whose last byte is NUL, so that the copy of the buffer ends inside
  it, and the text that then reaches the engine.
\<close>

definition sample_schema :: string where
  "sample_schema = ''CREATE TABLE IF NOT EXISTS message_types (name);''"

text \<open>
  Surroundings of \<^verbatim>\<open>Log::Open\<close> in which the file \<open>''x.db''\<close> holds the given store
  and that schema file is read and applied without a fault.
\<close>

definition file_holds :: "sqlite3 \<Rightarrow> open_env" where
  "file_holds d = \<lparr>sqlite3_open_v2 = (\<lambda>file flags. if file = ''x.db'' then Some d else None),
     schema_opens = True, schema_length = int (length sample_schema) + 1,
     schema_buffer = sample_schema @ [NUL], schema_reads = True, schema_fault = None\<rparr>"

text \<open>A new log after \<^verbatim>\<open>Log::Open\<close> succeeded in those surroundings.\<close>

definition opened_on :: "sqlite3 \<Rightarrow> LogPrivate" where
  "opened_on d =
     Log\<lparr>db := Some (Database (Some (d\<lparr>executed := executed d @ [(sample_schema, SQLITE_OK)]\<rparr>)))\<rparr>"

text \<open>The opened log after a begin that succeeded at instant 0.\<close>

definition active_log :: LogPrivate where
  "active_log = opened_log\<lparr>
     db := Some (Database (Some (new_store\<lparr>executed := [(''BEGIN;'', SQLITE_OK)]\<rparr>))),
     inTransaction := True, lastTransaction := 0\<rparr>"

text \<open>The opened log after it resolved the pair \<open>(''t'', ''A'')\<close> on the new store.\<close>

definition resolved_store :: sqlite3 where
  "resolved_store = new_store\<lparr>message_types_table := [(1, ''A'')],
     topics_table := [(1, ''t'', 1)], last_rowid := 1\<rparr>"

definition resolved_log :: LogPrivate where
  "resolved_log = opened_log\<lparr>db := Some (Database (Some resolved_store)),
     topics := [(''t'', ''A'') \<mapsto> 1]\<rparr>"

text \<open>Surroundings in which the topic statement does not compile, or the message step fails.\<close>

definition topic_fails :: insert_env where
  "topic_fails = (quiet_insert 1 2)\<lparr>topic_calls := quiet_topic\<lparr>compile_topic := False\<rparr>\<rparr>"

definition message_fails :: insert_env where
  "message_fails =
     (quiet_insert 1 2)\<lparr>message_calls := quiet_message\<lparr>step_message_fault := Some SQLITE_FULL\<rparr>\<rparr>"

text \<open>
  A call that inserts two bytes on topic \<open>''t''\<close> of type \<open>''A''\<close> in quiet
  surroundings; the clock reads \<open>t0\<close> at a begin and \<open>t1\<close> at the final test.
\<close>

definition quiet_call :: "int \<Rightarrow> int \<Rightarrow> insert_call" where
  "quiet_call t0 t1 = (\<lparr>sec = 5, nsec = 0\<rparr>, ''t'', ''A'', [104, 105], quiet_insert t0 t1)"

text \<open>
  Calls on the log that resolved \<open>(''t'', ''A'')\<close>: a message row for topic 1, the
  resolution of another pair, the first pair again, and a public insert on the first
  pair; and the log they leave.
\<close>

definition later_calls :: "log_call list" where
  "later_calls =
     [Call_LogPrivate_InsertMessage \<lparr>sec = 5, nsec = 0\<rparr> 1 [104, 105] quiet_message,
      Call_TopicId ''u'' ''B'' quiet_topic,
      Call_TopicId ''t'' ''A'' quiet_topic,
      Call_InsertMessage \<lparr>sec = 6, nsec = 0\<rparr> ''t'' ''A'' [106] (quiet_insert 0 1)]"

definition later_log :: LogPrivate where
  "later_log = \<lparr>db = Some (Database (Some
       \<lparr>message_types_table = [(1, ''A''), (2, ''B'')],
        topics_table = [(1, ''t'', 1), (2, ''u'', 2)],
        messages_table = [(1, 5, 0, [104, 105], 1), (2, 6, 0, [106], 1)],
        last_rowid = 2, executed = [(''BEGIN;'', SQLITE_OK)], topics_unique = False\<rparr>)),
     inTransaction = True,
     topics = [(''t'', ''A'') \<mapsto> 1, (''u'', ''B'') \<mapsto> 2],
     lastTransaction = 0, transactionPeriod = 500\<rparr>"

section \<open>Opening a log\<close>

lemma Log_Open_already_open:
  "db this \<noteq> None \<Longrightarrow> Log_Open this file mode env = Inr (False, this)"
  by (simp add: Log_Open_def)

lemma Log_Open_unknown_mode:
  "mode \<noteq> READ \<Longrightarrow> mode \<noteq> READ_WRITE \<Longrightarrow> mode \<noteq> READ_WRITE_CREATE
     \<Longrightarrow> Log_Open this file mode env = Inr (False, this)"
  by (simp add: Log_Open_def)

lemma Open_connect_no_connection:
  "sqlite3_open_v2 env file flags = None \<Longrightarrow>
     Open_connect this file flags env = Inr (True, this\<lparr>db := Some (Database None)\<rparr>)"
  by (simp add: Open_connect_def Let_def)

lemma Open_connect_schema_missing:
  "sqlite3_open_v2 env file flags \<noteq> None \<Longrightarrow> \<not> schema_opens env \<Longrightarrow>
     Open_connect this file flags env
       = Inr (False, this\<lparr>db := Some (Database (sqlite3_open_v2 env file flags))\<rparr>)"
  by (simp add: Open_connect_def Let_def)

text \<open>
  A schema file whose length the stream cannot tell makes \<^verbatim>\<open>Log::Open\<close> throw, and
  one without a NUL byte makes it read past the buffer; in neither case does the
  call return failure.
\<close>

lemma Open_connect_schema_length_unknown:
  "sqlite3_open_v2 env file flags \<noteq> None \<Longrightarrow> schema_opens env \<Longrightarrow> schema_length env < 0
     \<Longrightarrow> Open_connect this file flags env = Inl Throws_bad_array_new_length"
  by (simp add: Open_connect_def Let_def)

lemma Open_connect_schema_unterminated:
  "sqlite3_open_v2 env file flags \<noteq> None \<Longrightarrow> schema_opens env \<Longrightarrow> 0 \<le> schema_length env
     \<Longrightarrow> NUL \<notin> set (take (nat (schema_length env)) (schema_buffer env))
     \<Longrightarrow> Open_connect this file flags env = Inl Reads_past_buffer"
  by (simp add: Open_connect_def Let_def)

lemma Open_connect_schema_failure:
  assumes "sqlite3_open_v2 env file flags \<noteq> None"
    and "\<not> schema_opens env \<or> \<not> schema_reads env \<or> schema_fault env \<noteq> None"
    and "Open_connect this file flags env = Inr (r, this1)"
  shows "r = False"
  using assms
  by (auto simp: Open_connect_def sqlite3_exec_def Let_def split: option.splits if_splits)

text \<open>
  C1. \<^verbatim>\<open>Log::Open\<close> is to return failure when the connection cannot be established.
  On a new log, opening a path for reading while no connection can be established
  reaches the branch that reports the failure, which returns \<^verbatim>\<open>1\<close>: the call
  returns success, and leaves the log holding a wrapper whose handle is null.
\<close>

theorem Log_Open_no_connection_returns_true:
  "Log_Open Log ''missing.db'' READ no_connection
     = Inr (True, Log\<lparr>db := Some (Database None)\<rparr>)"
  by (simp add: Log_Open_def Log_def Open_connect_def no_connection_def Let_def)

section \<open>The topic id bound into a message row\<close>

lemma sint_ucast_64_32:
  "sint (ucast (w :: 64 word) :: 32 word) = (sint w + 2 ^ 31) mod 2 ^ 32 - 2 ^ 31"
proof -
  have "sint (ucast w :: 32 word) = signed_take_bit 31 (uint w)"
    by (simp add: sint_uint unsigned_ucast_eq signed_take_bit_take_bit)
  also have "\<dots> = signed_take_bit 31 (sint w)"
    by (simp add: sint_uint)
  also have "\<dots> = (sint w + 2 ^ 31) mod 2 ^ 32 - 2 ^ 31"
    by (simp add: signed_take_bit_eq_take_bit_shift take_bit_eq_mod)
  finally show ?thesis .
qed

lemma reduced_differs_outside_range:
  "(k :: int) < - (2 ^ 31) \<or> 2 ^ 31 \<le> k \<Longrightarrow> (k + 2 ^ 31) mod 2 ^ 32 - 2 ^ 31 \<noteq> k"
proof
  assume out: "k < - (2 ^ 31) \<or> 2 ^ 31 \<le> k" and eq: "(k + 2 ^ 31) mod 2 ^ 32 - 2 ^ 31 = k"
  have "signed_take_bit 31 k = (k + 2 ^ 31) mod 2 ^ 32 - 2 ^ 31"
    by (simp add: signed_take_bit_eq_take_bit_shift take_bit_eq_mod)
  with eq have "signed_take_bit 31 k = k" by simp
  then have "- (2 ^ 31) \<le> k \<and> k < 2 ^ 31"
    by (simp only: signed_take_bit_int_eq_self_iff)
  with out show False by linarith
qed

lemma LogPrivate_InsertMessage_row:
  assumes "db this = Some (Database (Some d))"
    and "LogPrivate_InsertMessage this time topic data env = Some (True, this1)"
  shows "\<exists>d1 i. db this1 = Some (Database (Some d1)) \<and>
           messages_table d1 = messages_table d @
             [(i, sint (sec time), sint (nsec time), data, sint (ucast topic :: 32 word))]"
  using assms
  by (auto simp: LogPrivate_InsertMessage_def sqlite3_bind_int_def sqlite3_bind_blob_def
        step_message_def Let_def
      split: option.splits if_splits)

text \<open>
  C3. \<^verbatim>\<open>LogPrivate::InsertMessage\<close> receives the topic id as a 64-bit value and binds
  it with the 32-bit integer bind. When the id lies outside the signed 32-bit range
  and the insert succeeds, the \<^verbatim>\<open>topic_id\<close> of the new messages row is the id
  reduced modulo \<open>2 ^ 32\<close> into the signed 32-bit range, and it is not the id passed.
\<close>

theorem InsertMessage_topic_id_reduced:
  assumes "db this = Some (Database (Some d))"
    and "LogPrivate_InsertMessage this time topic data env = Some (True, this1)"
    and "sint topic < - (2 ^ 31) \<or> 2 ^ 31 \<le> sint topic"
  shows "\<exists>d1 i. db this1 = Some (Database (Some d1)) \<and>
           messages_table d1 = messages_table d @
             [(i, sint (sec time), sint (nsec time), data,
               (sint topic + 2 ^ 31) mod 2 ^ 32 - 2 ^ 31)] \<and>
           (sint topic + 2 ^ 31) mod 2 ^ 32 - 2 ^ 31 \<noteq> sint topic"
proof -
  from LogPrivate_InsertMessage_row [OF assms(1,2)] obtain d1 i where
    "db this1 = Some (Database (Some d1))"
    "messages_table d1 = messages_table d @
       [(i, sint (sec time), sint (nsec time), data, sint (ucast topic :: 32 word))]"
    by blast
  moreover have "(sint topic + 2 ^ 31) mod 2 ^ 32 - 2 ^ 31 \<noteq> sint topic"
    by (rule reduced_differs_outside_range [OF assms(3)])
  ultimately show ?thesis
    by (auto simp: sint_ucast_64_32)
qed

theorem InsertMessage_topic_id_reduced_witness:
  "db opened_log = Some (Database (Some new_store)) \<and>
   LogPrivate_InsertMessage opened_log \<lparr>sec = 5, nsec = 0\<rparr> 4294967301 [104, 105] quiet_message
     = Some (True, opened_log\<lparr>db := Some (Database (Some
         (new_store\<lparr>messages_table := [(1, 5, 0, [104, 105], 5)], last_rowid := 1\<rparr>)))\<rparr>) \<and>
   2 ^ 31 \<le> sint (4294967301 :: 64 word) \<and>
   (\<exists>d1 i. db (opened_log\<lparr>db := Some (Database (Some
         (new_store\<lparr>messages_table := [(1, 5, 0, [104, 105], 5)], last_rowid := 1\<rparr>)))\<rparr>)
              = Some (Database (Some d1)) \<and>
           messages_table d1 = messages_table new_store @ [(i, 5, 0, [104, 105], 5)] \<and>
           (5 :: int) \<noteq> 4294967301)"
proof -
  have h1: "db opened_log = Some (Database (Some new_store))"
    by (simp add: opened_log_def Log_def)
  have h2: "LogPrivate_InsertMessage opened_log \<lparr>sec = 5, nsec = 0\<rparr> 4294967301 [104, 105]
              quiet_message
     = Some (True, opened_log\<lparr>db := Some (Database (Some
         (new_store\<lparr>messages_table := [(1, 5, 0, [104, 105], 5)], last_rowid := 1\<rparr>)))\<rparr>)"
    by (simp add: LogPrivate_InsertMessage_def opened_log_def Log_def new_store_def
          quiet_message_def sqlite3_bind_int_def sqlite3_bind_blob_def step_message_def
          assign_rowid_def next_rowid_def MAX_ROWID_def)
  have h3: "sint (4294967301 :: 64 word) < - (2 ^ 31) \<or> 2 ^ 31 \<le> sint (4294967301 :: 64 word)"
    by simp
  show ?thesis
    using InsertMessage_topic_id_reduced [OF h1 h2 h3] h1 h2 by simp
qed
section \<open>What the statements leave alone\<close>

lemma step_message_type_executed [simp]:
  "executed (snd (step_message_type d st f)) = executed d"
  by (auto simp: step_message_type_def split: option.splits sqlite_value.splits if_splits)

lemma step_topic_executed [simp]:
  "executed (snd (step_topic d st f)) = executed d"
  by (auto simp: step_topic_def split: option.splits sqlite_value.splits list.splits if_splits)

lemma step_message_executed [simp]:
  "executed (snd (step_message d st f)) = executed d"
  by (auto simp: step_message_def split: option.splits sqlite_value.splits)

lemma TopicId_keeps:
  assumes "TopicId this name type env = Some (r, this1)"
  shows "inTransaction this1 = inTransaction this \<and> exec_trace this1 = exec_trace this \<and>
         lastTransaction this1 = lastTransaction this \<and>
         transactionPeriod this1 = transactionPeriod this"
  using assms
  by (auto simp: TopicId_def exec_trace_def Let_def case_prod_beta
        split: option.splits if_splits Database.splits)

lemma LogPrivate_InsertMessage_keeps:
  assumes "LogPrivate_InsertMessage this time topic data env = Some (r, this1)"
  shows "inTransaction this1 = inTransaction this \<and> exec_trace this1 = exec_trace this \<and>
         lastTransaction this1 = lastTransaction this \<and>
         transactionPeriod this1 = transactionPeriod this \<and> topics this1 = topics this"
  using assms
  by (auto simp: LogPrivate_InsertMessage_def exec_trace_def Let_def case_prod_beta
        split: option.splits if_splits Database.splits)
section \<open>The transaction flag\<close>

lemma BeginTransaction_connected:
  assumes "db this = Some (Database (Some d))"
  shows "\<exists>rc. rc = (case f of None \<Rightarrow> SQLITE_OK | Some e \<Rightarrow> SQLITE_FAIL e) \<and>
           BeginTransaction this f now =
             Some (rc = SQLITE_OK,
                   this\<lparr>db := Some (Database (Some (d\<lparr>executed := executed d @ [(''BEGIN;'', rc)]\<rparr>))),
                        inTransaction := (rc = SQLITE_OK \<or> inTransaction this),
                        lastTransaction := (if rc = SQLITE_OK then now else lastTransaction this)\<rparr>)"
  using assms
  by (auto simp: BeginTransaction_def sqlite3_exec_def Let_def split: option.splits)

lemma EndTransaction_connected:
  assumes "db this = Some (Database (Some d))"
  shows "\<exists>rc. rc = (case f of None \<Rightarrow> SQLITE_OK | Some e \<Rightarrow> SQLITE_FAIL e) \<and>
           EndTransaction this f =
             Some (rc = SQLITE_OK,
                   this\<lparr>db := Some (Database (Some (d\<lparr>executed := executed d @ [(''END;'', rc)]\<rparr>))),
                        inTransaction := (rc \<noteq> SQLITE_OK \<and> inTransaction this)\<rparr>)"
  using assms
  by (auto simp: EndTransaction_def sqlite3_exec_def Let_def split: option.splits)

lemma txn_open_snoc [simp]: "txn_open (tr @ [e]) = txn_step (txn_open tr) e"
  by (simp add: txn_open_def)

lemma BeginTransaction_flag_matches:
  assumes "BeginTransaction this f now = Some (r, this1)" and "flag_matches this"
  shows "flag_matches this1"
  using assms
  by (auto simp: BeginTransaction_def sqlite3_exec_def Let_def flag_matches_def exec_trace_def
        txn_step_def
      split: option.splits Database.splits if_splits)

lemma EndTransaction_flag_matches:
  assumes "EndTransaction this f = Some (r, this1)" and "flag_matches this"
  shows "flag_matches this1"
  using assms
  by (auto simp: EndTransaction_def sqlite3_exec_def Let_def flag_matches_def exec_trace_def
        txn_step_def
      split: option.splits Database.splits if_splits)

lemma TopicId_flag_matches:
  "TopicId this name type env = Some (r, this1) \<Longrightarrow> flag_matches this \<Longrightarrow> flag_matches this1"
  by (drule TopicId_keeps) (simp add: flag_matches_def)

lemma LogPrivate_InsertMessage_flag_matches:
  "LogPrivate_InsertMessage this time topic data env = Some (r, this1) \<Longrightarrow> flag_matches this
     \<Longrightarrow> flag_matches this1"
  by (drule LogPrivate_InsertMessage_keeps) (simp add: flag_matches_def)

lemma Log_InsertMessage_flag_matches:
  assumes "Log_InsertMessage this time topic type data env = Some (r, this1)"
    and "flag_matches this"
  shows "flag_matches this1"
proof -
  from assms(1) obtain a thisA where
    A: "(if inTransaction this then Some (True, this)
         else BeginTransaction this (begin_fault env) (begin_now env)) = Some (a, thisA)"
    by (auto simp: Log_InsertMessage_def split: option.splits)
  have fA: "flag_matches thisA"
    using A assms(2) by (auto split: if_splits dest: BeginTransaction_flag_matches)
  show ?thesis
  proof (cases a)
    case False
    with assms(1) A have "this1 = thisA" by (simp add: Log_InsertMessage_def)
    with fA show ?thesis by simp
  next
    case True
    with assms(1) A obtain tid thisB where
      B: "TopicId thisA topic type (topic_calls env) = Some (tid, thisB)"
      by (auto simp: Log_InsertMessage_def split: option.splits)
    have fB: "flag_matches thisB" by (rule TopicId_flag_matches [OF B fA])
    show ?thesis
    proof (cases "tid <s 0")
      case True
      with assms(1) A B \<open>a\<close> have "this1 = thisB" by (simp add: Log_InsertMessage_def)
      with fB show ?thesis by simp
    next
      case False
      with assms(1) A B \<open>a\<close> obtain ok thisC where
        C: "LogPrivate_InsertMessage thisB time tid data (message_calls env) = Some (ok, thisC)"
        by (auto simp: Log_InsertMessage_def split: option.splits)
      have fC: "flag_matches thisC" by (rule LogPrivate_InsertMessage_flag_matches [OF C fB])
      from assms(1) A B C \<open>a\<close> False fC show ?thesis
        by (auto simp: Log_InsertMessage_def split: option.splits if_splits
              dest: EndTransaction_flag_matches)
    qed
  qed
qed

lemma Log_destructor_flag_matches:
  assumes "Log_destructor this f = Some this1" and "flag_matches this"
  shows "flag_matches this1"
  using assms
  by (auto simp: Log_destructor_def split: if_splits option.splits
        dest: EndTransaction_flag_matches)

text \<open>
  C5. On a connected log, \<^verbatim>\<open>BeginTransaction\<close> hands one \<^verbatim>\<open>BEGIN;\<close> to the engine and
  \<^verbatim>\<open>EndTransaction\<close> one \<^verbatim>\<open>END;\<close>; each returns whether its command succeeded, and
  \<open>inTransaction\<close> becomes true exactly when the begin succeeded and false exactly
  when the end succeeded, keeping its value otherwise: a failed begin leaves an idle
  log idle, a failed commit leaves an active log active. Hence the flag keeps
  agreeing with the outcomes of the commands executed so far, through the two
  methods, through \<^verbatim>\<open>Log::InsertMessage\<close> and through the destructor.
\<close>

theorem transaction_flag_follows_commands:
  assumes "db this = Some (Database (Some d))"
  shows "(\<exists>rc r this1.
            BeginTransaction this f now = Some (r, this1) \<and>
            exec_trace this1 = exec_trace this @ [(''BEGIN;'', rc)] \<and>
            r = (rc = SQLITE_OK) \<and>
            inTransaction this1 = (rc = SQLITE_OK \<or> inTransaction this) \<and>
            (flag_matches this \<longrightarrow> flag_matches this1)) \<and>
         (\<exists>rc r this2.
            EndTransaction this g = Some (r, this2) \<and>
            exec_trace this2 = exec_trace this @ [(''END;'', rc)] \<and>
            r = (rc = SQLITE_OK) \<and>
            inTransaction this2 = (rc \<noteq> SQLITE_OK \<and> inTransaction this) \<and>
            (flag_matches this \<longrightarrow> flag_matches this2)) \<and>
         (flag_matches this \<longrightarrow>
            Log_InsertMessage this time topic type data env = Some (r3, this3) \<longrightarrow>
            flag_matches this3) \<and>
         (flag_matches this \<longrightarrow> Log_destructor this g = Some this4 \<longrightarrow> flag_matches this4)"
proof (intro conjI)
  from BeginTransaction_connected [OF assms, of f now] obtain rc where
    B: "BeginTransaction this f now =
          Some (rc = SQLITE_OK,
                this\<lparr>db := Some (Database (Some (d\<lparr>executed := executed d @ [(''BEGIN;'', rc)]\<rparr>))),
                     inTransaction := (rc = SQLITE_OK \<or> inTransaction this),
                     lastTransaction := (if rc = SQLITE_OK then now else lastTransaction this)\<rparr>)"
    by blast
  show "\<exists>rc r this1.
            BeginTransaction this f now = Some (r, this1) \<and>
            exec_trace this1 = exec_trace this @ [(''BEGIN;'', rc)] \<and>
            r = (rc = SQLITE_OK) \<and>
            inTransaction this1 = (rc = SQLITE_OK \<or> inTransaction this) \<and>
            (flag_matches this \<longrightarrow> flag_matches this1)"
    using B BeginTransaction_flag_matches [OF B] assms
    by (intro exI [of _ rc] exI conjI) (auto simp: exec_trace_def)
next
  from EndTransaction_connected [OF assms, of g] obtain rc where
    E: "EndTransaction this g =
          Some (rc = SQLITE_OK,
                this\<lparr>db := Some (Database (Some (d\<lparr>executed := executed d @ [(''END;'', rc)]\<rparr>))),
                     inTransaction := (rc \<noteq> SQLITE_OK \<and> inTransaction this)\<rparr>)"
    by blast
  show "\<exists>rc r this2.
            EndTransaction this g = Some (r, this2) \<and>
            exec_trace this2 = exec_trace this @ [(''END;'', rc)] \<and>
            r = (rc = SQLITE_OK) \<and>
            inTransaction this2 = (rc \<noteq> SQLITE_OK \<and> inTransaction this) \<and>
            (flag_matches this \<longrightarrow> flag_matches this2)"
    using E EndTransaction_flag_matches [OF E] assms
    by (intro exI [of _ rc] exI conjI) (auto simp: exec_trace_def)
next
  show "flag_matches this \<longrightarrow>
          Log_InsertMessage this time topic type data env = Some (r3, this3) \<longrightarrow>
          flag_matches this3"
    using Log_InsertMessage_flag_matches by blast
next
  show "flag_matches this \<longrightarrow> Log_destructor this g = Some this4 \<longrightarrow> flag_matches this4"
    using Log_destructor_flag_matches by blast
qed
theorem transaction_flag_follows_commands_witness:
  "db active_log = Some (Database (Some (new_store\<lparr>executed := [(''BEGIN;'', SQLITE_OK)]\<rparr>))) \<and>
   flag_matches active_log \<and>
   map_option fst (EndTransaction active_log (Some SQLITE_BUSY)) = Some False \<and>
   map_option (inTransaction \<circ> snd) (EndTransaction active_log (Some SQLITE_BUSY)) = Some True \<and>
   map_option (exec_trace \<circ> snd) (EndTransaction active_log (Some SQLITE_BUSY))
     = Some [(''BEGIN;'', SQLITE_OK), (''END;'', SQLITE_FAIL SQLITE_BUSY)] \<and>
   map_option (flag_matches \<circ> snd) (EndTransaction active_log (Some SQLITE_BUSY)) = Some True \<and>
   map_option fst (BeginTransaction active_log (Some SQLITE_BUSY) 7) = Some False \<and>
   db opened_log = Some (Database (Some new_store)) \<and>
   flag_matches opened_log \<and>
   map_option fst (BeginTransaction opened_log (Some SQLITE_BUSY) 7) = Some False \<and>
   map_option (inTransaction \<circ> snd) (BeginTransaction opened_log (Some SQLITE_BUSY) 7)
     = Some False \<and>
   map_option (exec_trace \<circ> snd) (BeginTransaction opened_log (Some SQLITE_BUSY) 7)
     = Some [(''BEGIN;'', SQLITE_FAIL SQLITE_BUSY)] \<and>
   map_option (flag_matches \<circ> snd) (BeginTransaction opened_log (Some SQLITE_BUSY) 7)
     = Some True"
proof -
  have h1: "db active_log
      = Some (Database (Some (new_store\<lparr>executed := [(''BEGIN;'', SQLITE_OK)]\<rparr>)))"
    by (simp add: active_log_def)
  have h2: "db opened_log = Some (Database (Some new_store))"
    by (simp add: opened_log_def)
  have main:
    "flag_matches active_log \<and>
     map_option fst (EndTransaction active_log (Some SQLITE_BUSY)) = Some False \<and>
     map_option (inTransaction \<circ> snd) (EndTransaction active_log (Some SQLITE_BUSY)) = Some True \<and>
     map_option (exec_trace \<circ> snd) (EndTransaction active_log (Some SQLITE_BUSY))
       = Some [(''BEGIN;'', SQLITE_OK), (''END;'', SQLITE_FAIL SQLITE_BUSY)] \<and>
     map_option (flag_matches \<circ> snd) (EndTransaction active_log (Some SQLITE_BUSY)) = Some True \<and>
     map_option fst (BeginTransaction active_log (Some SQLITE_BUSY) 7) = Some False \<and>
     flag_matches opened_log \<and>
     map_option fst (BeginTransaction opened_log (Some SQLITE_BUSY) 7) = Some False \<and>
     map_option (inTransaction \<circ> snd) (BeginTransaction opened_log (Some SQLITE_BUSY) 7)
       = Some False \<and>
     map_option (exec_trace \<circ> snd) (BeginTransaction opened_log (Some SQLITE_BUSY) 7)
       = Some [(''BEGIN;'', SQLITE_FAIL SQLITE_BUSY)] \<and>
     map_option (flag_matches \<circ> snd) (BeginTransaction opened_log (Some SQLITE_BUSY) 7)
       = Some True"
    by (simp add: flag_matches_def active_log_def opened_log_def Log_def new_store_def
          exec_trace_def txn_open_def txn_step_def EndTransaction_def BeginTransaction_def
          sqlite3_exec_def Let_def)
  show ?thesis
    using transaction_flag_follows_commands [OF h1,
        where f = "Some SQLITE_BUSY" and g = "Some SQLITE_BUSY" and now = 7]
      transaction_flag_follows_commands [OF h2,
        where f = "Some SQLITE_BUSY" and g = "Some SQLITE_BUSY" and now = 7]
    by (simp (no_asm) only: main h1 h2)
qed

section \<open>Destroying a log\<close>

text \<open>
  C8. When a connected log is destroyed while a transaction is active, the
  destructor hands exactly one \<^verbatim>\<open>END;\<close> to the engine and returns, whether or not
  that commit succeeded: its outcome is dropped. When no transaction is active the
  destructor executes nothing and leaves the state as it is.
\<close>

theorem destructor_commits_once:
  assumes "db this = Some (Database (Some d))"
  shows "(inTransaction this \<longrightarrow>
            (\<exists>rc this1. Log_destructor this f = Some this1 \<and>
               exec_trace this1 = exec_trace this @ [(''END;'', rc)] \<and>
               rc = (case f of None \<Rightarrow> SQLITE_OK | Some e \<Rightarrow> SQLITE_FAIL e) \<and>
               inTransaction this1 = (rc \<noteq> SQLITE_OK))) \<and>
         (\<not> inTransaction this \<longrightarrow> Log_destructor this f = Some this)"
proof (intro conjI impI)
  assume act: "inTransaction this"
  from EndTransaction_connected [OF assms, of f] obtain rc where
    rc: "rc = (case f of None \<Rightarrow> SQLITE_OK | Some e \<Rightarrow> SQLITE_FAIL e)" and
    E: "EndTransaction this f =
          Some (rc = SQLITE_OK,
                this\<lparr>db := Some (Database (Some (d\<lparr>executed := executed d @ [(''END;'', rc)]\<rparr>))),
                     inTransaction := (rc \<noteq> SQLITE_OK \<and> inTransaction this)\<rparr>)"
    by blast
  from rc act E assms show "\<exists>rc this1. Log_destructor this f = Some this1 \<and>
               exec_trace this1 = exec_trace this @ [(''END;'', rc)] \<and>
               rc = (case f of None \<Rightarrow> SQLITE_OK | Some e \<Rightarrow> SQLITE_FAIL e) \<and>
               inTransaction this1 = (rc \<noteq> SQLITE_OK)"
    by (intro exI [of _ rc] exI conjI) (auto simp: Log_destructor_def exec_trace_def)
next
  assume "\<not> inTransaction this"
  then show "Log_destructor this f = Some this"
    by (simp add: Log_destructor_def)
qed

theorem destructor_commits_once_witness:
  "db active_log = Some (Database (Some (new_store\<lparr>executed := [(''BEGIN;'', SQLITE_OK)]\<rparr>))) \<and>
   inTransaction active_log \<and>
   map_option exec_trace (Log_destructor active_log (Some SQLITE_IOERR))
     = Some [(''BEGIN;'', SQLITE_OK), (''END;'', SQLITE_FAIL SQLITE_IOERR)] \<and>
   map_option inTransaction (Log_destructor active_log (Some SQLITE_IOERR)) = Some True \<and>
   map_option exec_trace (Log_destructor active_log None)
     = Some [(''BEGIN;'', SQLITE_OK), (''END;'', SQLITE_OK)] \<and>
   map_option inTransaction (Log_destructor active_log None) = Some False \<and>
   db opened_log = Some (Database (Some new_store)) \<and>
   inTransaction opened_log = False \<and>
   Log_destructor opened_log (Some SQLITE_IOERR) = Some opened_log"
proof -
  have h1: "db active_log
      = Some (Database (Some (new_store\<lparr>executed := [(''BEGIN;'', SQLITE_OK)]\<rparr>)))"
    by (simp add: active_log_def)
  have h2: "db opened_log = Some (Database (Some new_store))"
    by (simp add: opened_log_def)
  have main:
    "inTransaction active_log \<and>
     map_option exec_trace (Log_destructor active_log (Some SQLITE_IOERR))
       = Some [(''BEGIN;'', SQLITE_OK), (''END;'', SQLITE_FAIL SQLITE_IOERR)] \<and>
     map_option inTransaction (Log_destructor active_log (Some SQLITE_IOERR)) = Some True \<and>
     map_option exec_trace (Log_destructor active_log None)
       = Some [(''BEGIN;'', SQLITE_OK), (''END;'', SQLITE_OK)] \<and>
     map_option inTransaction (Log_destructor active_log None) = Some False \<and>
     inTransaction opened_log = False \<and>
     Log_destructor opened_log (Some SQLITE_IOERR) = Some opened_log"
    by (simp add: active_log_def opened_log_def Log_def new_store_def exec_trace_def
          Log_destructor_def EndTransaction_def sqlite3_exec_def Let_def)
  show ?thesis
    using destructor_commits_once [OF h1, where f = "Some SQLITE_IOERR"]
      destructor_commits_once [OF h1, where f = None]
      destructor_commits_once [OF h2, where f = "Some SQLITE_IOERR"]
    by (simp (no_asm) only: main h1 h2)
qed
section \<open>Resolving a topic\<close>

lemma TopicId_hit:
  "topics this (name, type) = Some r \<Longrightarrow> TopicId this name type env = Some (r, this)"
  by (simp add: TopicId_def)

lemma TopicId_miss:
  assumes "topics this (name, type) = None" and "db this = Some (Database (Some d))"
  shows "TopicId this name type env =
     (if \<not> compile_message_type env \<or> \<not> compile_topic env \<or>
         bind_message_type_1 env \<noteq> None \<or> bind_message_type_2 env \<noteq> None \<or>
         bind_topic_name env \<noteq> None
      then Some (- 1, this)
      else
        let s1 = step_message_type d [1 \<mapsto> SqlText type] (step_message_type_fault env)
        in if fst s1 \<noteq> SQLITE_DONE
           then Some (- 1, this\<lparr>db := Some (Database (Some (snd s1)))\<rparr>)
           else
             let s2 = step_topic (snd s1) [1 \<mapsto> SqlText type, 2 \<mapsto> SqlText name]
                        (step_topic_fault env)
             in if fst s2 \<noteq> SQLITE_DONE
                then Some (- 1, this\<lparr>db := Some (Database (Some (snd s2)))\<rparr>)
                else Some (sqlite3_last_insert_rowid (snd s2),
                           this\<lparr>db := Some (Database (Some (snd s2))),
                                topics := (topics this)((name, type) \<mapsto>
                                  sqlite3_last_insert_rowid (snd s2))\<rparr>))"
  using assms
  by (auto simp: TopicId_def sqlite3_bind_text_def Let_def case_prod_beta
      split: option.splits)

lemma TopicId_miss_null_handle:
  assumes "topics this (name, type) = None" and "db this = Some (Database None)"
  shows "TopicId this name type env = Some (- 1, this)"
  using assms by (simp add: TopicId_def)

text \<open>
  C7. On a cache miss of a log whose database pointer is set, when a statement
  fails to compile, a parameter fails to bind or a step does not return
  \<^verbatim>\<open>SQLITE_DONE\<close>, \<^verbatim>\<open>TopicId\<close> returns \<open>- 1\<close> and the cache is the one it started
  with. The cache changes only when every call succeeded, both inserts included,
  and then by the one entry for the pair, holding the id returned.
\<close>

theorem TopicId_failure_leaves_cache:
  assumes "topics this (name, type) = None"
    and "db this = Some dbw"
    and "TopicId this name type env = Some (r, this1)"
  shows "(\<not> TopicId_calls_succeed (Handle dbw) name type env \<longrightarrow>
            r = - 1 \<and> topics this1 = topics this) \<and>
         (topics this1 \<noteq> topics this \<longrightarrow> TopicId_calls_succeed (Handle dbw) name type env) \<and>
         (TopicId_calls_succeed (Handle dbw) name type env \<longrightarrow>
            topics this1 = (topics this)((name, type) \<mapsto> r))"
proof (cases dbw)
  case (Database h)
  show ?thesis
  proof (cases h)
    case None
    with Database assms TopicId_miss_null_handle [of this name type env]
    show ?thesis by (simp add: TopicId_calls_succeed_def)
  next
    case (Some d)
    with Database assms(2) have conn: "db this = Some (Database (Some d))" by simp
    from assms(3) Database Some show ?thesis
      unfolding TopicId_miss [OF assms(1) conn]
      by (auto simp: TopicId_calls_succeed_def Let_def split: if_splits)
  qed
qed

theorem TopicId_failure_leaves_cache_witness:
  "topics opened_log (''t'', ''A'') = None \<and>
   db opened_log = Some (Database (Some new_store)) \<and>
   TopicId opened_log ''t'' ''A'' (quiet_topic\<lparr>step_topic_fault := Some SQLITE_FULL\<rparr>)
     = Some (- 1, opened_log\<lparr>db := Some (Database (Some
         (new_store\<lparr>message_types_table := [(1, ''A'')], last_rowid := 1\<rparr>)))\<rparr>) \<and>
   TopicId_calls_succeed (Some new_store) ''t'' ''A''
     (quiet_topic\<lparr>step_topic_fault := Some SQLITE_FULL\<rparr>) = False \<and>
   topics (opened_log\<lparr>db := Some (Database (Some
         (new_store\<lparr>message_types_table := [(1, ''A'')], last_rowid := 1\<rparr>)))\<rparr>)
     = topics opened_log \<and>
   TopicId opened_log ''t'' ''A'' quiet_topic
     = Some (1, opened_log\<lparr>db := Some (Database (Some
         (new_store\<lparr>message_types_table := [(1, ''A'')], topics_table := [(1, ''t'', 1)],
            last_rowid := 1\<rparr>))),
         topics := [(''t'', ''A'') \<mapsto> 1]\<rparr>) \<and>
   TopicId_calls_succeed (Some new_store) ''t'' ''A'' quiet_topic = True"
proof -
  have h1: "topics opened_log (''t'', ''A'') = None"
    by (simp add: opened_log_def Log_def)
  have h2: "db opened_log = Some (Database (Some new_store))"
    by (simp add: opened_log_def)
  have h3: "TopicId opened_log ''t'' ''A'' (quiet_topic\<lparr>step_topic_fault := Some SQLITE_FULL\<rparr>)
     = Some (- 1, opened_log\<lparr>db := Some (Database (Some
         (new_store\<lparr>message_types_table := [(1, ''A'')], last_rowid := 1\<rparr>)))\<rparr>)"
    by (simp add: TopicId_def opened_log_def Log_def new_store_def quiet_topic_def
          sqlite3_bind_text_def step_message_type_def step_topic_def assign_rowid_def
          next_rowid_def MAX_ROWID_def)
  have h4: "TopicId opened_log ''t'' ''A'' quiet_topic
     = Some (1, opened_log\<lparr>db := Some (Database (Some
         (new_store\<lparr>message_types_table := [(1, ''A'')], topics_table := [(1, ''t'', 1)],
            last_rowid := 1\<rparr>))),
         topics := [(''t'', ''A'') \<mapsto> 1]\<rparr>)"
    by (simp add: TopicId_def opened_log_def Log_def new_store_def quiet_topic_def
          sqlite3_bind_text_def step_message_type_def step_topic_def assign_rowid_def
          next_rowid_def MAX_ROWID_def sqlite3_last_insert_rowid_def)
  have main:
    "TopicId_calls_succeed (Some new_store) ''t'' ''A''
       (quiet_topic\<lparr>step_topic_fault := Some SQLITE_FULL\<rparr>) = False \<and>
     topics (opened_log\<lparr>db := Some (Database (Some
         (new_store\<lparr>message_types_table := [(1, ''A'')], last_rowid := 1\<rparr>)))\<rparr>)
       = topics opened_log \<and>
     TopicId_calls_succeed (Some new_store) ''t'' ''A'' quiet_topic = True"
    by (simp add: TopicId_calls_succeed_def new_store_def quiet_topic_def
          step_message_type_def step_topic_def assign_rowid_def next_rowid_def MAX_ROWID_def)
  show ?thesis
    using TopicId_failure_leaves_cache [OF h1 h2 h3] TopicId_failure_leaves_cache [OF h1 h2 h4]
    by (simp (no_asm) only: main h1 h2 h3 h4)
qed
lemma step_message_type_done:
  assumes "step_message_type d [1 \<mapsto> SqlText ty] f = (SQLITE_DONE, d1)"
  shows "ty \<in> snd ` set (message_types_table d1) \<and>
         topics_table d1 = topics_table d \<and> messages_table d1 = messages_table d \<and>
         (d1 = d \<and> ty \<in> snd ` set (message_types_table d) \<or>
          (\<exists>j. assign_rowid (map fst (message_types_table d)) = Some j \<and>
               ty \<notin> snd ` set (message_types_table d) \<and>
               message_types_table d1 = message_types_table d @ [(j, ty)]))"
  using assms
  by (auto simp: step_message_type_def split: option.splits if_splits)

lemma step_topic_done:
  assumes "step_topic d [1 \<mapsto> SqlText ty, 2 \<mapsto> SqlText nm] f = (SQLITE_DONE, d1)"
    and "ty \<in> snd ` set (message_types_table d)"
  shows "\<exists>i mt. (mt, ty) \<in> set (message_types_table d) \<and>
           assign_rowid (map fst (topics_table d)) = Some i \<and>
           topics_table d1 = topics_table d @ [(i, nm, mt)] \<and>
           last_rowid d1 = i \<and>
           message_types_table d1 = message_types_table d \<and>
           messages_table d1 = messages_table d"
proof -
  from assms(2) obtain r rest where
    F: "filter (\<lambda>r. snd r = ty) (message_types_table d) = r # rest"
    by (cases "filter (\<lambda>r. snd r = ty) (message_types_table d)")
       (auto simp: filter_empty_conv)
  then have "r \<in> set (filter (\<lambda>r. snd r = ty) (message_types_table d))" by simp
  then have R: "(fst r, ty) \<in> set (message_types_table d)" by auto
  from assms(1) F R show ?thesis
    by (auto simp: step_topic_def split: option.splits if_splits)
qed

lemma TopicId_miss_success:
  assumes "topics this (name, type) = None"
    and "TopicId this name type env = Some (r, this1)"
    and "r \<noteq> - 1"
  shows "\<exists>d dm d1 i mt.
           db this = Some (Database (Some d)) \<and>
           step_message_type d [1 \<mapsto> SqlText type] (step_message_type_fault env)
             = (SQLITE_DONE, dm) \<and>
           (mt, type) \<in> set (message_types_table dm) \<and>
           assign_rowid (map fst (topics_table d)) = Some i \<and>
           topics_table d1 = topics_table d @ [(i, name, mt)] \<and>
           message_types_table d1 = message_types_table dm \<and>
           messages_table d1 = messages_table d \<and>
           executed d1 = executed d \<and>
           r = word_of_int i \<and>
           this1 = this\<lparr>db := Some (Database (Some d1)),
                       topics := (topics this)((name, type) \<mapsto> r)\<rparr>"
proof -
  from assms obtain dbw where D: "db this = Some dbw"
    by (auto simp: TopicId_def split: option.splits)
  from assms D obtain d where H: "dbw = Database (Some d)"
    by (cases dbw; cases "Handle dbw") (auto simp: TopicId_def)
  with D have conn: "db this = Some (Database (Some d))" by simp
  define s1 where "s1 = step_message_type d [1 \<mapsto> SqlText type] (step_message_type_fault env)"
  define s2 where "s2 = step_topic (snd s1) [1 \<mapsto> SqlText type, 2 \<mapsto> SqlText name]
                           (step_topic_fault env)"
  from assms(2,3) have
    S1: "fst s1 = SQLITE_DONE" and S2: "fst s2 = SQLITE_DONE" and
    R: "r = sqlite3_last_insert_rowid (snd s2)" and
    T: "this1 = this\<lparr>db := Some (Database (Some (snd s2))),
                     topics := (topics this)((name, type) \<mapsto> r)\<rparr>"
    unfolding TopicId_miss [OF assms(1) conn] s1_def s2_def
    by (auto simp: Let_def split: if_splits)
  from S1 have E1: "step_message_type d [1 \<mapsto> SqlText type] (step_message_type_fault env)
      = (SQLITE_DONE, snd s1)"
    by (simp add: s1_def prod_eq_iff)
  from S2 have E2: "step_topic (snd s1) [1 \<mapsto> SqlText type, 2 \<mapsto> SqlText name]
      (step_topic_fault env) = (SQLITE_DONE, snd s2)"
    by (simp add: s2_def prod_eq_iff)
  from step_message_type_done [OF E1] have
    M: "type \<in> snd ` set (message_types_table (snd s1))"
       "topics_table (snd s1) = topics_table d" "messages_table (snd s1) = messages_table d"
    by simp_all
  from step_topic_done [OF E2 M(1)] obtain i mt where
    P: "(mt, type) \<in> set (message_types_table (snd s1))"
       "assign_rowid (map fst (topics_table (snd s1))) = Some i"
       "topics_table (snd s2) = topics_table (snd s1) @ [(i, name, mt)]"
       "last_rowid (snd s2) = i"
       "message_types_table (snd s2) = message_types_table (snd s1)"
       "messages_table (snd s2) = messages_table (snd s1)"
    by blast
  have X: "executed (snd s2) = executed d"
    by (simp add: s1_def s2_def)
  show ?thesis
    using conn E1 P M R T X
    by (intro exI [of _ d] exI [of _ "snd s1"] exI [of _ "snd s2"] exI [of _ i] exI [of _ mt])
       (simp add: sqlite3_last_insert_rowid_def)
qed

lemma TopicId_cached_after:
  assumes "TopicId this name type env = Some (r, this1)" and "r \<noteq> - 1"
  shows "topics this1 (name, type) = Some r"
proof (cases "topics this (name, type)")
  case None
  from TopicId_miss_success [OF None assms] show ?thesis by auto
next
  case (Some c)
  with assms(1) TopicId_hit [OF Some, of env] show ?thesis by simp
qed

lemma TopicId_repeat_cached:
  "topics this (name, type) = Some r \<Longrightarrow>
     TopicId_repeat this name type envs = Some (replicate (length envs) r, this)"
  by (induction envs) (simp_all add: TopicId_hit)

lemma TopicId_opened_log:
  "TopicId opened_log ''t'' ''A'' quiet_topic = Some (1, resolved_log)"
  by (simp add: TopicId_def opened_log_def resolved_log_def resolved_store_def Log_def
        new_store_def quiet_topic_def sqlite3_bind_text_def step_message_type_def
        step_topic_def assign_rowid_def next_rowid_def MAX_ROWID_def
        sqlite3_last_insert_rowid_def)

section \<open>Inserting a message\<close>

lemma Log_InsertMessage_steps:
  "Log_InsertMessage this time topic type data env =
     (case EnsureActive this env of
        None \<Rightarrow> None
      | Some (active, this1) \<Rightarrow>
          if \<not> active then Some (False, this1)
          else
            (case TopicId this1 topic type (topic_calls env) of
               None \<Rightarrow> None
             | Some (topicId, this2) \<Rightarrow>
                 if topicId <s 0 then Some (False, this2)
                 else
                   (case LogPrivate_InsertMessage this2 time topicId data (message_calls env) of
                      None \<Rightarrow> None
                    | Some (inserted, this3) \<Rightarrow>
                        if \<not> inserted then Some (False, this3)
                        else if TimeForNewTransaction this3 (check_now env)
                        then (case EndTransaction this3 (end_fault env) of
                                None \<Rightarrow> None
                              | Some (_, this4) \<Rightarrow> Some (True, this4))
                        else Some (True, this3))))"
  by (simp add: Log_InsertMessage_def EnsureActive_def)

lemma EnsureActive_True:
  assumes "EnsureActive this env = Some (True, this1)"
  shows "inTransaction this1 \<and> (inTransaction this \<longrightarrow> this1 = this)"
  using assms
  by (auto simp: EnsureActive_def BeginTransaction_def Let_def case_prod_beta
      split: if_splits option.splits)

text \<open>
  C4. \<^verbatim>\<open>Log::InsertMessage\<close> returns success only when a transaction is active after
  its first step, the topic id resolved is not negative and the message row was
  inserted. When the resolution yields a negative id, or the insertion fails, the
  call returns failure with the state that step left: the transaction is still
  active and no command was handed to the engine since the first step, so neither a
  commit nor a rollback; with a transaction already active at the call, the call
  handed no command to the engine at all.
\<close>

theorem InsertMessage_success_and_failure:
  assumes "Log_InsertMessage this time topic type data env = Some (r, this')"
  shows "(r \<longrightarrow>
            (\<exists>this1 topicId this2 this3.
               EnsureActive this env = Some (True, this1) \<and>
               TopicId this1 topic type (topic_calls env) = Some (topicId, this2) \<and>
               \<not> topicId <s 0 \<and>
               LogPrivate_InsertMessage this2 time topicId data (message_calls env)
                 = Some (True, this3))) \<and>
         (\<forall>this1 topicId this2.
            EnsureActive this env = Some (True, this1) \<longrightarrow>
            TopicId this1 topic type (topic_calls env) = Some (topicId, this2) \<longrightarrow>
            topicId <s 0 \<longrightarrow>
              \<not> r \<and> this' = this2 \<and> inTransaction this' \<and>
              exec_trace this' = exec_trace this1 \<and>
              (inTransaction this \<longrightarrow> exec_trace this' = exec_trace this)) \<and>
         (\<forall>this1 topicId this2 this3.
            EnsureActive this env = Some (True, this1) \<longrightarrow>
            TopicId this1 topic type (topic_calls env) = Some (topicId, this2) \<longrightarrow>
            \<not> topicId <s 0 \<longrightarrow>
            LogPrivate_InsertMessage this2 time topicId data (message_calls env)
              = Some (False, this3) \<longrightarrow>
              \<not> r \<and> this' = this3 \<and> inTransaction this' \<and>
              exec_trace this' = exec_trace this1 \<and>
              (inTransaction this \<longrightarrow> exec_trace this' = exec_trace this))"
proof (intro conjI allI impI)
  assume r
  with assms show "\<exists>this1 topicId this2 this3.
               EnsureActive this env = Some (True, this1) \<and>
               TopicId this1 topic type (topic_calls env) = Some (topicId, this2) \<and>
               \<not> topicId <s 0 \<and>
               LogPrivate_InsertMessage this2 time topicId data (message_calls env)
                 = Some (True, this3)"
    unfolding Log_InsertMessage_steps
    by (auto split: option.splits if_splits)
next
  fix this1 topicId this2
  assume A: "EnsureActive this env = Some (True, this1)"
    and B: "TopicId this1 topic type (topic_calls env) = Some (topicId, this2)"
    and C: "topicId <s 0"
  from assms A B C have R: "\<not> r" "this' = this2"
    unfolding Log_InsertMessage_steps by simp_all
  from EnsureActive_True [OF A] TopicId_keeps [OF B] R
  show "\<not> r" "this' = this2" "inTransaction this'" "exec_trace this' = exec_trace this1"
    by simp_all
  assume "inTransaction this"
  with EnsureActive_True [OF A] TopicId_keeps [OF B] R
  show "exec_trace this' = exec_trace this" by simp
next
  fix this1 topicId this2 this3
  assume A: "EnsureActive this env = Some (True, this1)"
    and B: "TopicId this1 topic type (topic_calls env) = Some (topicId, this2)"
    and C: "\<not> topicId <s 0"
    and D: "LogPrivate_InsertMessage this2 time topicId data (message_calls env)
              = Some (False, this3)"
  from assms A B C D have R: "\<not> r" "this' = this3"
    unfolding Log_InsertMessage_steps by simp_all
  from EnsureActive_True [OF A] TopicId_keeps [OF B] LogPrivate_InsertMessage_keeps [OF D] R
  show "\<not> r" "this' = this3" "inTransaction this'" "exec_trace this' = exec_trace this1"
    by simp_all
  assume "inTransaction this"
  with EnsureActive_True [OF A] TopicId_keeps [OF B] LogPrivate_InsertMessage_keeps [OF D] R
  show "exec_trace this' = exec_trace this" by simp
qed
lemmas run_defs =
  Log_InsertMessage_def EnsureActive_def BeginTransaction_def EndTransaction_def
  TimeForNewTransaction_def TopicId_def LogPrivate_InsertMessage_def
  sqlite3_exec_def sqlite3_bind_text_def sqlite3_bind_int_def sqlite3_bind_blob_def
  step_message_type_def step_topic_def step_message_def sqlite3_last_insert_rowid_def
  assign_rowid_def next_rowid_def MAX_ROWID_def Let_def word_sless_alt

lemmas fixture_defs =
  Log_def new_store_def opened_log_def active_log_def resolved_store_def resolved_log_def
  quiet_topic_def quiet_message_def quiet_insert_def topic_fails_def message_fails_def

theorem InsertMessage_success_and_failure_witness:
  "Log_InsertMessage active_log \<lparr>sec = 5, nsec = 0\<rparr> ''t'' ''A'' [104, 105] topic_fails
     = Some (False, active_log) \<and>
   EnsureActive active_log topic_fails = Some (True, active_log) \<and>
   TopicId active_log ''t'' ''A'' (topic_calls topic_fails) = Some (- 1, active_log) \<and>
   (- 1 :: 64 word) <s 0 \<and>
   inTransaction active_log \<and>
   exec_trace active_log = [(''BEGIN;'', SQLITE_OK)] \<and>
   map_option fst
     (Log_InsertMessage active_log \<lparr>sec = 5, nsec = 0\<rparr> ''t'' ''A'' [104, 105] message_fails)
     = Some False \<and>
   map_option (inTransaction \<circ> snd)
     (Log_InsertMessage active_log \<lparr>sec = 5, nsec = 0\<rparr> ''t'' ''A'' [104, 105] message_fails)
     = Some True \<and>
   map_option (exec_trace \<circ> snd)
     (Log_InsertMessage active_log \<lparr>sec = 5, nsec = 0\<rparr> ''t'' ''A'' [104, 105] message_fails)
     = Some [(''BEGIN;'', SQLITE_OK)] \<and>
   map_option fst
     (Log_InsertMessage opened_log \<lparr>sec = 5, nsec = 0\<rparr> ''t'' ''A'' [104, 105] (quiet_insert 1 2))
     = Some True"
proof -
  have run: "Log_InsertMessage active_log \<lparr>sec = 5, nsec = 0\<rparr> ''t'' ''A'' [104, 105] topic_fails
     = Some (False, active_log)"
    by (simp add: run_defs fixture_defs)
  have main:
    "EnsureActive active_log topic_fails = Some (True, active_log) \<and>
     TopicId active_log ''t'' ''A'' (topic_calls topic_fails) = Some (- 1, active_log) \<and>
     (- 1 :: 64 word) <s 0 \<and>
     inTransaction active_log \<and>
     exec_trace active_log = [(''BEGIN;'', SQLITE_OK)] \<and>
     map_option fst
       (Log_InsertMessage active_log \<lparr>sec = 5, nsec = 0\<rparr> ''t'' ''A'' [104, 105] message_fails)
       = Some False \<and>
     map_option (inTransaction \<circ> snd)
       (Log_InsertMessage active_log \<lparr>sec = 5, nsec = 0\<rparr> ''t'' ''A'' [104, 105] message_fails)
       = Some True \<and>
     map_option (exec_trace \<circ> snd)
       (Log_InsertMessage active_log \<lparr>sec = 5, nsec = 0\<rparr> ''t'' ''A'' [104, 105] message_fails)
       = Some [(''BEGIN;'', SQLITE_OK)] \<and>
     map_option fst
       (Log_InsertMessage opened_log \<lparr>sec = 5, nsec = 0\<rparr> ''t'' ''A'' [104, 105]
          (quiet_insert 1 2))
       = Some True"
    by (simp add: run_defs fixture_defs exec_trace_def)
  show ?thesis
    using InsertMessage_success_and_failure [OF run]
    by (simp (no_asm) only: main run simp_thms)
qed
section \<open>Batching by time\<close>

lemma connectedE:
  assumes "connected this"
  obtains d where "db this = Some (Database (Some d))"
  using assms
  by (auto simp: connected_def split: option.splits Database.splits)

lemma connectedI: "db this = Some (Database (Some d)) \<Longrightarrow> connected this"
  by (simp add: connected_def)

lemma TopicId_connected:
  assumes "TopicId this name type env = Some (r, this1)" and "connected this"
  shows "connected this1"
  using assms
  by (auto simp: TopicId_def connected_def Let_def case_prod_beta
      split: option.splits if_splits Database.splits)

lemma LogPrivate_InsertMessage_connected:
  assumes "LogPrivate_InsertMessage this time topic data env = Some (r, this1)"
    and "connected this"
  shows "connected this1"
  using assms
  by (auto simp: LogPrivate_InsertMessage_def connected_def Let_def case_prod_beta
      split: option.splits if_splits Database.splits)

lemma EnsureActive_effect:
  assumes "connected this" and "EnsureActive this env = Some (a, this1)"
  shows "connected this1 \<and> transactionPeriod this1 = transactionPeriod this \<and>
         topics this1 = topics this \<and>
         a = (inTransaction this \<or> begin_fault env = None) \<and>
         inTransaction this1 = a \<and>
         exec_trace this1 = exec_trace this @
           (if inTransaction this then [] else [(''BEGIN;'', exec_rc (begin_fault env))]) \<and>
         lastTransaction this1 =
           (if \<not> inTransaction this \<and> begin_fault env = None then begin_now env
            else lastTransaction this)"
proof -
  from assms(1) obtain d where conn: "db this = Some (Database (Some d))"
    by (rule connectedE)
  show ?thesis
  proof (cases "inTransaction this")
    case True
    with assms show ?thesis by (simp add: EnsureActive_def)
  next
    case False
    from BeginTransaction_connected [OF conn, of "begin_fault env" "begin_now env"] assms(2) False
    show ?thesis
      using conn
      by (auto simp: EnsureActive_def exec_trace_def exec_rc_def connected_def
          split: option.splits)
  qed
qed

lemma EndTransaction_effect:
  assumes "connected this" and "EndTransaction this f = Some (r, this1)"
  shows "connected this1 \<and> transactionPeriod this1 = transactionPeriod this \<and>
         topics this1 = topics this \<and>
         lastTransaction this1 = lastTransaction this \<and>
         r = (f = None) \<and>
         inTransaction this1 = (f \<noteq> None \<and> inTransaction this) \<and>
         exec_trace this1 = exec_trace this @ [(''END;'', exec_rc f)]"
proof -
  from assms(1) obtain d where conn: "db this = Some (Database (Some d))"
    by (rule connectedE)
  from EndTransaction_connected [OF conn, of f] assms(2) conn show ?thesis
    by (auto simp: exec_trace_def exec_rc_def connected_def split: option.splits)
qed

text \<open>
  What one call does to the trace, the flag and the watermark. \<open>start\<close> is the
  watermark the final test reads: the one already recorded when a transaction was
  active, the instant of the begin otherwise.
\<close>

lemma Log_InsertMessage_effect:
  assumes "connected this"
    and "Log_InsertMessage this time topic type data env = Some (r, this')"
  defines "active \<equiv> inTransaction this \<or> begin_fault env = None"
    and "start \<equiv> (if \<not> inTransaction this \<and> begin_fault env = None then begin_now env
                    else lastTransaction this)"
  defines "commit \<equiv> r \<and> check_now env - transactionPeriod this * 1000000 > start"
  shows "connected this' \<and> transactionPeriod this' = transactionPeriod this \<and>
         (r \<longrightarrow> active) \<and>
         lastTransaction this' = start \<and>
         inTransaction this' = (active \<and> \<not> (commit \<and> end_fault env = None)) \<and>
         exec_trace this' = exec_trace this @
           (if inTransaction this then [] else [(''BEGIN;'', exec_rc (begin_fault env))]) @
           (if commit then [(''END;'', exec_rc (end_fault env))] else [])"
proof -
  from assms(2) obtain a thisA where A: "EnsureActive this env = Some (a, thisA)"
    unfolding Log_InsertMessage_steps by (auto split: option.splits)
  note EA = EnsureActive_effect [OF assms(1) A]
  show ?thesis
  proof (cases a)
    case False
    with assms(2) A have "r = False" "this' = thisA"
      unfolding Log_InsertMessage_steps by simp_all
    with EA False show ?thesis
      by (simp add: active_def start_def commit_def)
  next
    case True
    with assms(2) A obtain tid thisB where
      B: "TopicId thisA topic type (topic_calls env) = Some (tid, thisB)"
      unfolding Log_InsertMessage_steps by (auto split: option.splits)
    note TB = TopicId_keeps [OF B] TopicId_connected [OF B]
    show ?thesis
    proof (cases "tid <s 0")
      case neg: True
      with assms(2) A B True have "r = False" "this' = thisB"
        unfolding Log_InsertMessage_steps by simp_all
      with EA TB True show ?thesis
        by (simp add: active_def start_def commit_def)
    next
      case nonneg: False
      with assms(2) A B True obtain ok thisC where
        C: "LogPrivate_InsertMessage thisB time tid data (message_calls env) = Some (ok, thisC)"
        unfolding Log_InsertMessage_steps by (auto split: option.splits)
      note MC = LogPrivate_InsertMessage_keeps [OF C] LogPrivate_InsertMessage_connected [OF C]
      show ?thesis
      proof (cases ok)
        case False
        with assms(2) A B C True nonneg have "r = False" "this' = thisC"
          unfolding Log_InsertMessage_steps by simp_all
        with EA TB MC True show ?thesis
          by (simp add: active_def start_def commit_def)
      next
        case inserted: True
        have LT: "lastTransaction thisC = start" "transactionPeriod thisC = transactionPeriod this"
          "connected thisC" "inTransaction thisC" "active"
          using EA TB MC True by (auto simp: start_def active_def)
        show ?thesis
        proof (cases "TimeForNewTransaction thisC (check_now env)")
          case False
          with assms(2) A B C True nonneg inserted have R: "r = True" "this' = thisC"
            unfolding Log_InsertMessage_steps by simp_all
          from False LT have "\<not> commit"
            by (simp add: commit_def TimeForNewTransaction_def)
          with R EA TB MC LT show ?thesis
            by simp
        next
          case time: True
          with assms(2) A B C True nonneg inserted obtain e thisD where
            D: "EndTransaction thisC (end_fault env) = Some (e, thisD)" and
            R: "r = True" "this' = thisD"
            unfolding Log_InsertMessage_steps by (auto split: option.splits)
          note ED = EndTransaction_effect [OF LT(3) D]
          from time LT R have "commit"
            by (simp add: commit_def TimeForNewTransaction_def)
          with R EA TB MC LT ED show ?thesis
            by simp
        qed
      qed
    qed
  qed
qed
lemma issued_append [simp]: "issued sql (xs @ ys) = issued sql xs + issued sql ys"
  by (simp add: issued_def)

lemma InsertMessages_active_within_period:
  assumes "InsertMessages this cs = Some (rs, this')"
    and "connected this" and "inTransaction this"
    and "\<forall>c \<in> set cs.
           check_now (call_env c) - lastTransaction this \<le> transactionPeriod this * 1000000"
  shows "connected this' \<and> inTransaction this' \<and> exec_trace this' = exec_trace this \<and>
         lastTransaction this' = lastTransaction this \<and>
         transactionPeriod this' = transactionPeriod this"
  using assms
proof (induction cs arbitrary: this rs)
  case Nil
  then show ?case by simp
next
  case (Cons c cs)
  obtain time topic type data env where c: "c = (time, topic, type, data, env)"
    by (cases c) auto
  from Cons.prems(1) c obtain r this1 rs1 where
    run: "Log_InsertMessage this time topic type data env = Some (r, this1)" and
    rest: "InsertMessages this1 cs = Some (rs1, this')"
    by (auto split: option.splits)
  from Cons.prems(4) c have
    "check_now env - lastTransaction this \<le> transactionPeriod this * 1000000"
    by (simp add: call_env_def)
  then have nocommit:
    "\<not> (check_now env - transactionPeriod this * 1000000 > lastTransaction this)"
    by linarith
  from Log_InsertMessage_effect [OF Cons.prems(2) run] Cons.prems(3) nocommit have
    step: "connected this1" "inTransaction this1" "exec_trace this1 = exec_trace this"
      "lastTransaction this1 = lastTransaction this"
      "transactionPeriod this1 = transactionPeriod this"
    by simp_all
  from Cons.prems(4) step have
    "\<forall>c \<in> set cs.
       check_now (call_env c) - lastTransaction this1 \<le> transactionPeriod this1 * 1000000"
    by simp
  from Cons.IH [OF rest step(1,2) this] step show ?case by simp
qed

lemma InsertMessages_idle_within_period:
  assumes "InsertMessages this (c # cs) = Some (rs, this')"
    and "connected this" and "\<not> inTransaction this"
    and "begin_fault (call_env c) = None"
    and "\<forall>c' \<in> set (c # cs).
           check_now (call_env c') - begin_now (call_env c) \<le> transactionPeriod this * 1000000"
  shows "connected this' \<and> inTransaction this' \<and>
         exec_trace this' = exec_trace this @ [(''BEGIN;'', SQLITE_OK)] \<and>
         lastTransaction this' = begin_now (call_env c) \<and>
         transactionPeriod this' = transactionPeriod this"
proof -
  obtain time topic type data env where c: "c = (time, topic, type, data, env)"
    by (cases c) auto
  from assms(1) c obtain r this1 rs1 where
    run: "Log_InsertMessage this time topic type data env = Some (r, this1)" and
    rest: "InsertMessages this1 cs = Some (rs1, this')"
    by (auto split: option.splits)
  from assms(4) c have bf: "begin_fault env = None" by (simp add: call_env_def)
  from assms(5) c have
    "check_now env - begin_now env \<le> transactionPeriod this * 1000000"
    by (simp add: call_env_def)
  then have nocommit:
    "\<not> (check_now env - transactionPeriod this * 1000000 > begin_now env)"
    by linarith
  from Log_InsertMessage_effect [OF assms(2) run] assms(3) bf nocommit have
    step: "connected this1" "inTransaction this1"
      "exec_trace this1 = exec_trace this @ [(''BEGIN;'', SQLITE_OK)]"
      "lastTransaction this1 = begin_now env"
      "transactionPeriod this1 = transactionPeriod this"
    by (simp_all add: exec_rc_def)
  from assms(5) c step have
    "\<forall>c' \<in> set cs.
       check_now (call_env c') - lastTransaction this1 \<le> transactionPeriod this1 * 1000000"
    by (simp add: call_env_def)
  from InsertMessages_active_within_period [OF rest step(1,2) this] step c
  show ?thesis by (simp add: call_env_def)
qed

text \<open>
  C6. On a connected log whose period is 500 ms: a call of \<^verbatim>\<open>Log::InsertMessage\<close>
  hands one \<^verbatim>\<open>END;\<close> to the engine exactly when it reaches its final test, which
  is when it returns success and where the transaction is active, and the clock
  there is more than the period past the watermark (the one recorded by the begin,
  in this call or in an earlier one); otherwise it hands none. Starting idle, a run of one or more
  calls whose begin does not fail and whose final tests all fall within the period
  after that begin hands the engine one \<^verbatim>\<open>BEGIN;\<close> and no \<^verbatim>\<open>END;\<close>, and leaves the
  transaction active; a successful call after it whose final test falls beyond the
  period hands the engine exactly one \<^verbatim>\<open>END;\<close>, and the log is idle when that commit
  succeeds.
\<close>

theorem commit_only_after_period:
  assumes "connected this" and "transactionPeriod this = 500"
  shows "(Log_InsertMessage this time topic type data env = Some (r, this1) \<longrightarrow>
            issued ''END;'' (exec_trace this1) =
              issued ''END;'' (exec_trace this) +
              (if r \<and>
                  check_now env -
                    (if inTransaction this then lastTransaction this else begin_now env)
                  > 500 * 1000000
               then 1 else 0)) \<and>
         (\<not> inTransaction this \<longrightarrow>
          begin_fault (call_env c) = None \<longrightarrow>
          (\<forall>c' \<in> set (c # cs).
              check_now (call_env c') - begin_now (call_env c) \<le> 500 * 1000000) \<longrightarrow>
          InsertMessages this (c # cs) = Some (rs, this2) \<longrightarrow>
            exec_trace this2 = exec_trace this @ [(''BEGIN;'', SQLITE_OK)] \<and>
            inTransaction this2 \<and>
            (\<forall>time' topic' type' data' env' this3.
                check_now env' - begin_now (call_env c) > 500 * 1000000 \<longrightarrow>
                Log_InsertMessage this2 time' topic' type' data' env' = Some (True, this3) \<longrightarrow>
                  exec_trace this3 = exec_trace this2 @ [(''END;'', exec_rc (end_fault env'))] \<and>
                  inTransaction this3 = (end_fault env' \<noteq> None)))"
proof (intro conjI impI allI)
  assume run: "Log_InsertMessage this time topic type data env = Some (r, this1)"
  from Log_InsertMessage_effect [OF assms(1) run] assms(2)
  show "issued ''END;'' (exec_trace this1) =
          issued ''END;'' (exec_trace this) +
          (if r \<and>
              check_now env -
                (if inTransaction this then lastTransaction this else begin_now env)
              > 500 * 1000000
           then 1 else 0)"
    by (auto simp: issued_def)
next
  assume idle: "\<not> inTransaction this"
    and bf: "begin_fault (call_env c) = None"
    and win: "\<forall>c' \<in> set (c # cs).
                check_now (call_env c') - begin_now (call_env c) \<le> 500 * 1000000"
    and runs: "InsertMessages this (c # cs) = Some (rs, this2)"
  from win assms(2) have win':
    "\<forall>c' \<in> set (c # cs).
       check_now (call_env c') - begin_now (call_env c) \<le> transactionPeriod this * 1000000"
    by simp
  note after = InsertMessages_idle_within_period [OF runs assms(1) idle bf win']
  from after show "exec_trace this2 = exec_trace this @ [(''BEGIN;'', SQLITE_OK)]"
    and "inTransaction this2" by simp_all
  fix time' topic' type' data' env' this3
  assume late: "check_now env' - begin_now (call_env c) > 500 * 1000000"
    and run3: "Log_InsertMessage this2 time' topic' type' data' env' = Some (True, this3)"
  from after have c2: "connected this2" by simp
  from Log_InsertMessage_effect [OF c2 run3] after late assms(2)
  show "exec_trace this3 = exec_trace this2 @ [(''END;'', exec_rc (end_fault env'))]"
    and "inTransaction this3 = (end_fault env' \<noteq> None)"
    by auto
qed
theorem commit_only_after_period_witness:
  "connected opened_log \<and> transactionPeriod opened_log = 500 \<and>
   inTransaction opened_log = False \<and>
   begin_fault (call_env (quiet_call 0 100000000)) = None \<and>
   check_now (call_env (quiet_call 0 100000000)) - begin_now (call_env (quiet_call 0 100000000))
     \<le> 500 * 1000000 \<and>
   check_now (call_env (quiet_call 5 400000000)) - begin_now (call_env (quiet_call 0 100000000))
     \<le> 500 * 1000000 \<and>
   map_option fst (InsertMessages opened_log [quiet_call 0 100000000, quiet_call 5 400000000])
     = Some [True, True] \<and>
   map_option (exec_trace \<circ> snd)
       (InsertMessages opened_log [quiet_call 0 100000000, quiet_call 5 400000000])
     = Some [(''BEGIN;'', SQLITE_OK)] \<and>
   map_option (inTransaction \<circ> snd)
       (InsertMessages opened_log [quiet_call 0 100000000, quiet_call 5 400000000])
     = Some True \<and>
   map_option fst
       (InsertMessages opened_log
          [quiet_call 0 100000000, quiet_call 5 400000000, quiet_call 7 600000000])
     = Some [True, True, True] \<and>
   map_option (exec_trace \<circ> snd)
       (InsertMessages opened_log
          [quiet_call 0 100000000, quiet_call 5 400000000, quiet_call 7 600000000])
     = Some [(''BEGIN;'', SQLITE_OK), (''END;'', SQLITE_OK)] \<and>
   map_option (inTransaction \<circ> snd)
       (InsertMessages opened_log
          [quiet_call 0 100000000, quiet_call 5 400000000, quiet_call 7 600000000])
     = Some False"
proof -
  have h1: "connected opened_log"
    by (simp add: connected_def opened_log_def)
  have h2: "transactionPeriod opened_log = 500"
    by (simp add: opened_log_def Log_def)
  have main:
    "inTransaction opened_log = False \<and>
     begin_fault (call_env (quiet_call 0 100000000)) = None \<and>
     check_now (call_env (quiet_call 0 100000000)) - begin_now (call_env (quiet_call 0 100000000))
       \<le> 500 * 1000000 \<and>
     check_now (call_env (quiet_call 5 400000000)) - begin_now (call_env (quiet_call 0 100000000))
       \<le> 500 * 1000000 \<and>
     map_option fst (InsertMessages opened_log [quiet_call 0 100000000, quiet_call 5 400000000])
       = Some [True, True] \<and>
     map_option (exec_trace \<circ> snd)
         (InsertMessages opened_log [quiet_call 0 100000000, quiet_call 5 400000000])
       = Some [(''BEGIN;'', SQLITE_OK)] \<and>
     map_option (inTransaction \<circ> snd)
         (InsertMessages opened_log [quiet_call 0 100000000, quiet_call 5 400000000])
       = Some True \<and>
     map_option fst
         (InsertMessages opened_log
            [quiet_call 0 100000000, quiet_call 5 400000000, quiet_call 7 600000000])
       = Some [True, True, True] \<and>
     map_option (exec_trace \<circ> snd)
         (InsertMessages opened_log
            [quiet_call 0 100000000, quiet_call 5 400000000, quiet_call 7 600000000])
       = Some [(''BEGIN;'', SQLITE_OK), (''END;'', SQLITE_OK)] \<and>
     map_option (inTransaction \<circ> snd)
         (InsertMessages opened_log
            [quiet_call 0 100000000, quiet_call 5 400000000, quiet_call 7 600000000])
       = Some False"
    by (simp add: run_defs fixture_defs quiet_call_def call_env_def exec_trace_def)
  show ?thesis
    using commit_only_after_period [OF h1 h2,
        where c = "quiet_call 0 100000000" and cs = "[quiet_call 5 400000000]"]
    by (simp (no_asm) only: main h1 h2 simp_thms)
qed
section \<open>The cache and the store\<close>

lemma sint_rowid:
  "1 \<le> i \<Longrightarrow> i \<le> MAX_ROWID \<Longrightarrow> sint (word_of_int i :: 64 word) = i"
  by (simp add: sint_sbintrunc' signed_take_bit_int_eq_self MAX_ROWID_def)

lemma next_rowid_greater: "i \<in> set ids \<Longrightarrow> i < next_rowid ids"
proof -
  assume i: "i \<in> set ids"
  then have "ids \<noteq> []" by auto
  moreover from i have "i \<le> Max (set ids)" by simp
  ultimately show ?thesis by (simp add: next_rowid_def)
qed

lemma next_rowid_fresh: "next_rowid ids \<notin> set ids"
  using next_rowid_greater [of "next_rowid ids" ids] by auto

lemma next_rowid_positive: "list_all (\<lambda>i. 1 \<le> i \<and> i \<le> m) ids \<Longrightarrow> 1 \<le> next_rowid ids"
proof (cases ids)
  case Nil
  then show ?thesis by (simp add: next_rowid_def)
next
  case (Cons a as)
  assume "list_all (\<lambda>i. 1 \<le> i \<and> i \<le> m) ids"
  with Cons have "1 \<le> a" by simp
  moreover from Cons have "a < next_rowid ids" by (simp add: next_rowid_greater)
  ultimately show ?thesis by linarith
qed

lemma assign_rowid_Some:
  assumes "assign_rowid ids = Some i"
  shows "i = next_rowid ids \<and> i \<le> MAX_ROWID \<and> i \<notin> set ids"
  using assms next_rowid_fresh [of ids]
  by (auto simp: assign_rowid_def split: if_splits)

lemma step_message_type_wf:
  assumes "store_wf d"
  shows "store_wf (snd (step_message_type d st f)) \<and>
         topics_table (snd (step_message_type d st f)) = topics_table d \<and>
         set (message_types_table d) \<subseteq> set (message_types_table (snd (step_message_type d st f)))"
  using assms
  by (fastforce simp: step_message_type_def store_wf_def image_iff
      dest!: assign_rowid_Some
      split: option.splits sqlite_value.splits)

lemma step_topic_wf:
  assumes "store_wf d"
  shows "store_wf (snd (step_topic d st f)) \<and>
         message_types_table (snd (step_topic d st f)) = message_types_table d \<and>
         set (topics_table d) \<subseteq> set (topics_table (snd (step_topic d st f)))"
proof -
  have pos: "1 \<le> next_rowid (map fst (topics_table d))"
    using assms by (auto simp: store_wf_def intro: next_rowid_positive)
  show ?thesis
    using assms pos
    by (fastforce simp: step_topic_def store_wf_def image_iff
        dest!: assign_rowid_Some
        split: option.splits sqlite_value.splits list.splits if_splits)
qed

lemma step_message_wf:
  "store_wf (snd (step_message d st f)) = store_wf d \<and>
   message_types_table (snd (step_message d st f)) = message_types_table d \<and>
   topics_table (snd (step_message d st f)) = topics_table d"
  by (auto simp: step_message_def store_wf_def split: option.splits sqlite_value.splits)

lemma cache_coherent_mono:
  assumes "cache_coherent d cache"
    and "set (topics_table d) \<subseteq> set (topics_table d')"
    and "set (message_types_table d) \<subseteq> set (message_types_table d')"
  shows "cache_coherent d' cache"
  using assms unfolding cache_coherent_def by blast

lemma log_invE:
  assumes "log_inv this"
  obtains d where "db this = Some (Database (Some d))" "store_wf d"
    "cache_coherent d (topics this)"
  using assms
  by (auto simp: log_inv_def split: option.splits Database.splits)

lemma log_invI:
  "db this = Some (Database (Some d)) \<Longrightarrow> store_wf d \<Longrightarrow> cache_coherent d (topics this)
     \<Longrightarrow> log_inv this"
  by (simp add: log_inv_def)
lemma TopicId_cache_other:
  assumes "TopicId this name type env = Some (r, this1)" and "k \<noteq> (name, type)"
  shows "topics this1 k = topics this k"
  using assms
  by (auto simp: TopicId_def Let_def case_prod_beta
      split: option.splits if_splits)

lemma TopicId_log_inv:
  assumes "log_inv this" and "TopicId this name type env = Some (r, this1)"
  shows "log_inv this1"
proof (cases "topics this (name, type)")
  case (Some c)
  with assms(2) TopicId_hit [OF Some, of env] have "this1 = this" by simp
  with assms(1) show ?thesis by simp
next
  case None
  from assms(1) obtain d where
    conn: "db this = Some (Database (Some d))" and wf: "store_wf d" and
    coh: "cache_coherent d (topics this)"
    by (rule log_invE)
  define s1 where "s1 = step_message_type d [1 \<mapsto> SqlText type] (step_message_type_fault env)"
  define s2 where "s2 = step_topic (snd s1) [1 \<mapsto> SqlText type, 2 \<mapsto> SqlText name]
                           (step_topic_fault env)"
  from step_message_type_wf [OF wf, of "[1 \<mapsto> SqlText type]" "step_message_type_fault env"]
  have W1: "store_wf (snd s1)" "topics_table (snd s1) = topics_table d"
    "set (message_types_table d) \<subseteq> set (message_types_table (snd s1))"
    by (simp_all add: s1_def)
  from step_topic_wf [OF W1(1), of "[1 \<mapsto> SqlText type, 2 \<mapsto> SqlText name]"
      "step_topic_fault env"]
  have W2: "store_wf (snd s2)" "message_types_table (snd s2) = message_types_table (snd s1)"
    "set (topics_table (snd s1)) \<subseteq> set (topics_table (snd s2))"
    by (simp_all add: s2_def)
  have C1: "cache_coherent (snd s1) (topics this)"
    using coh W1 by (auto intro: cache_coherent_mono)
  have C2: "cache_coherent (snd s2) (topics this)"
    using C1 W2 by (auto intro: cache_coherent_mono)
  from assms(2) consider
      (a) "this1 = this"
    | (b) "this1 = this\<lparr>db := Some (Database (Some (snd s1)))\<rparr>"
    | (c) "this1 = this\<lparr>db := Some (Database (Some (snd s2)))\<rparr>"
    | (d) "fst s1 = SQLITE_DONE" "fst s2 = SQLITE_DONE"
          "this1 = this\<lparr>db := Some (Database (Some (snd s2))),
                       topics := (topics this)((name, type) \<mapsto>
                         sqlite3_last_insert_rowid (snd s2))\<rparr>"
    unfolding TopicId_miss [OF None conn] s1_def s2_def
    by (auto simp: Let_def split: if_splits)
  then show ?thesis
  proof cases
    case a
    with assms(1) show ?thesis by simp
  next
    case b
    with W1 C1 show ?thesis by (simp add: log_inv_def)
  next
    case c
    with W2 C2 show ?thesis by (simp add: log_inv_def)
  next
    case d
    from d(1) have E1: "step_message_type d [1 \<mapsto> SqlText type] (step_message_type_fault env)
        = (SQLITE_DONE, snd s1)"
      by (simp add: s1_def prod_eq_iff)
    from d(2) have E2: "step_topic (snd s1) [1 \<mapsto> SqlText type, 2 \<mapsto> SqlText name]
        (step_topic_fault env) = (SQLITE_DONE, snd s2)"
      by (simp add: s2_def prod_eq_iff)
    from step_message_type_done [OF E1] have
      M: "type \<in> snd ` set (message_types_table (snd s1))" by simp
    from step_topic_done [OF E2 M] obtain i mt where
      P: "(mt, type) \<in> set (message_types_table (snd s1))"
         "assign_rowid (map fst (topics_table (snd s1))) = Some i"
         "topics_table (snd s2) = topics_table (snd s1) @ [(i, name, mt)]"
         "last_rowid (snd s2) = i"
      by blast
    from assign_rowid_Some [OF P(2)] have I: "i = next_rowid (map fst (topics_table (snd s1)))"
      "i \<le> MAX_ROWID" by simp_all
    from W1(1) have "1 \<le> next_rowid (map fst (topics_table (snd s1)))"
      by (auto simp: store_wf_def intro: next_rowid_positive)
    with I have S: "sint (sqlite3_last_insert_rowid (snd s2)) = i"
      by (simp add: sqlite3_last_insert_rowid_def P(4) sint_rowid)
    have "cache_coherent (snd s2)
            ((topics this)((name, type) \<mapsto> sqlite3_last_insert_rowid (snd s2)))"
      unfolding cache_coherent_def
    proof (intro allI impI)
      fix n t c
      assume L: "((topics this)((name, type) \<mapsto> sqlite3_last_insert_rowid (snd s2))) (n, t)
          = Some c"
      show "\<exists>mt. (sint c, n, mt) \<in> set (topics_table (snd s2)) \<and>
              (mt, t) \<in> set (message_types_table (snd s2))"
      proof (cases "(n, t) = (name, type)")
        case True
        with L S P W2 show ?thesis by auto
      next
        case False
        with L have "topics this (n, t) = Some c" by (auto split: if_splits)
        with C2 show ?thesis by (simp add: cache_coherent_def)
      qed
    qed
    with d W2 show ?thesis by (simp add: log_inv_def)
  qed
qed

lemma TopicId_miss_fresh:
  assumes "log_inv this" and "topics this (name, type) = None"
    and "TopicId this name type env = Some (r, this1)" and "r \<noteq> - 1"
  shows "\<exists>d d1 mt. db this = Some (Database (Some d)) \<and>
           db this1 = Some (Database (Some d1)) \<and>
           sint r \<notin> fst ` set (topics_table d) \<and>
           topics_table d1 = topics_table d @ [(sint r, name, mt)] \<and>
           (mt, type) \<in> set (message_types_table d1)"
proof -
  from TopicId_miss_success [OF assms(2,3,4)] obtain d dm d1 i mt where
    F0: "db this = Some (Database (Some d)) \<and>
         step_message_type d [1 \<mapsto> SqlText type] (step_message_type_fault env)
           = (SQLITE_DONE, dm) \<and>
         (mt, type) \<in> set (message_types_table dm) \<and>
         assign_rowid (map fst (topics_table d)) = Some i \<and>
         topics_table d1 = topics_table d @ [(i, name, mt)] \<and>
         message_types_table d1 = message_types_table dm \<and>
         messages_table d1 = messages_table d \<and>
         executed d1 = executed d \<and>
         r = word_of_int i \<and>
         this1 = this\<lparr>db := Some (Database (Some d1)),
                     topics := (topics this)((name, type) \<mapsto> r)\<rparr>"
    by (elim exE)
  then have
    F: "db this = Some (Database (Some d))"
       "(mt, type) \<in> set (message_types_table dm)"
       "assign_rowid (map fst (topics_table d)) = Some i"
       "topics_table d1 = topics_table d @ [(i, name, mt)]"
       "message_types_table d1 = message_types_table dm"
       "r = word_of_int i"
       "this1 = this\<lparr>db := Some (Database (Some d1)),
                    topics := (topics this)((name, type) \<mapsto> r)\<rparr>"
    by simp_all
  from assms(1) F(1) have wf: "store_wf d" by (auto elim: log_invE)
  from assign_rowid_Some [OF F(3)] have I: "i = next_rowid (map fst (topics_table d))"
    "i \<le> MAX_ROWID" "i \<notin> set (map fst (topics_table d))" by blast+
  from wf have "1 \<le> next_rowid (map fst (topics_table d))"
    by (auto simp: store_wf_def intro: next_rowid_positive)
  with I F(6) have S: "sint r = i" by (simp add: sint_rowid)
  from F I(3) S show ?thesis
    by (intro exI [of _ d] exI [of _ d1] exI [of _ mt]) auto
qed

lemma cache_injective:
  assumes "store_wf d" and "cache_coherent d cache"
    and "cache (n1, t1) = Some c" and "cache (n2, t2) = Some c"
  shows "(n1, t1) = (n2, t2)"
proof -
  from assms(2,3) obtain m1 where
    R1: "(sint c, n1, m1) \<in> set (topics_table d)" "(m1, t1) \<in> set (message_types_table d)"
    unfolding cache_coherent_def by blast
  from assms(2,4) obtain m2 where
    R2: "(sint c, n2, m2) \<in> set (topics_table d)" "(m2, t2) \<in> set (message_types_table d)"
    unfolding cache_coherent_def by blast
  from assms(1) have D: "distinct (map fst (topics_table d))"
    "distinct (map fst (message_types_table d))"
    by (simp_all add: store_wf_def)
  from eq_key_imp_eq_value [OF D(1) R1(1) R2(1)] have E: "n1 = n2" "m1 = m2" by simp_all
  with R1(2) R2(2) eq_key_imp_eq_value [OF D(2)] have "t1 = t2" by blast
  with E show ?thesis by simp
qed

text \<open>
  C10. On a log that satisfies the invariant (a well-formed store, a coherent
  cache), resolving a topic name with one type and then with another type, both
  resolutions returning an id other than \<open>- 1\<close>, yields two different ids.
\<close>

theorem TopicId_types_get_distinct_ids:
  assumes "log_inv this" and "type1 \<noteq> type2"
    and "TopicId this name type1 env1 = Some (id1, this1)"
    and "TopicId this1 name type2 env2 = Some (id2, this2)"
    and "id1 \<noteq> - 1" and "id2 \<noteq> - 1"
  shows "id1 \<noteq> id2"
proof
  assume eq: "id1 = id2"
  have inv2: "log_inv this2"
    by (rule TopicId_log_inv [OF TopicId_log_inv [OF assms(1,3)] assms(4)])
  then obtain d where wf: "store_wf d" and coh: "cache_coherent d (topics this2)"
    by (rule log_invE)
  have c1: "topics this1 (name, type1) = Some id1"
    by (rule TopicId_cached_after [OF assms(3,5)])
  from assms(2) have "(name, type1) \<noteq> (name, type2)" by simp
  from TopicId_cache_other [OF assms(4) this] c1
  have k1: "topics this2 (name, type1) = Some id2" by (simp add: eq)
  have k2: "topics this2 (name, type2) = Some id2"
    by (rule TopicId_cached_after [OF assms(4,6)])
  from cache_injective [OF wf coh k1 k2] assms(2) show False by simp
qed
lemma log_inv_opened_log: "log_inv opened_log"
  by (simp add: log_inv_def opened_log_def Log_def new_store_def store_wf_def
        cache_coherent_def)

theorem TopicId_types_get_distinct_ids_witness:
  "log_inv opened_log \<and> ''A'' \<noteq> ''B'' \<and>
   TopicId opened_log ''t'' ''A'' quiet_topic = Some (1, resolved_log) \<and>
   TopicId resolved_log ''t'' ''B'' quiet_topic
     = Some (2, resolved_log\<lparr>db := Some (Database (Some
         (resolved_store\<lparr>message_types_table := [(1, ''A''), (2, ''B'')],
            topics_table := [(1, ''t'', 1), (2, ''t'', 2)], last_rowid := 2\<rparr>))),
         topics := [(''t'', ''A'') \<mapsto> 1, (''t'', ''B'') \<mapsto> 2]\<rparr>) \<and>
   (1 :: 64 word) \<noteq> - 1 \<and> (2 :: 64 word) \<noteq> - 1 \<and> (1 :: 64 word) \<noteq> 2"
proof -
  have h2: "''A'' \<noteq> ''B''" by simp
  have h4: "TopicId resolved_log ''t'' ''B'' quiet_topic
     = Some (2, resolved_log\<lparr>db := Some (Database (Some
         (resolved_store\<lparr>message_types_table := [(1, ''A''), (2, ''B'')],
            topics_table := [(1, ''t'', 1), (2, ''t'', 2)], last_rowid := 2\<rparr>))),
         topics := [(''t'', ''A'') \<mapsto> 1, (''t'', ''B'') \<mapsto> 2]\<rparr>)"
    by (simp add: run_defs fixture_defs)
  have h5: "(1 :: 64 word) \<noteq> - 1" and h6: "(2 :: 64 word) \<noteq> - 1" by simp_all
  show ?thesis
    using TopicId_types_get_distinct_ids [OF log_inv_opened_log h2 TopicId_opened_log h4 h5 h6]
    by (simp (no_asm_simp) only: log_inv_opened_log h2 TopicId_opened_log h4 h5 h6 simp_thms)
qed
lemma store_wf_tables: "tables d' = tables d \<Longrightarrow> store_wf d' = store_wf d"
  by (simp add: tables_def store_wf_def)

lemma LogPrivate_InsertMessage_log_inv:
  assumes "log_inv this"
    and "LogPrivate_InsertMessage this time topic data env = Some (r, this1)"
  shows "log_inv this1"
proof -
  from assms(1) obtain d where
    conn: "db this = Some (Database (Some d))" and wf: "store_wf d" and
    coh: "cache_coherent d (topics this)"
    by (rule log_invE)
  define s where "s = step_message d
      [1 \<mapsto> SqlInteger (sint (sec time)), 2 \<mapsto> SqlInteger (sint (nsec time)),
       3 \<mapsto> SqlBlob data, 4 \<mapsto> SqlInteger (sint (ucast topic :: 32 word))]
      (step_message_fault env)"
  from assms(2) conn have "this1 = this \<or> this1 = this\<lparr>db := Some (Database (Some (snd s)))\<rparr>"
    by (auto simp: LogPrivate_InsertMessage_def sqlite3_bind_int_def sqlite3_bind_blob_def
          Let_def case_prod_beta s_def
        split: option.splits if_splits)
  moreover have "store_wf (snd s)" "cache_coherent (snd s) (topics this)"
    using wf coh step_message_wf [of d _ "step_message_fault env"]
    by (auto simp: s_def cache_coherent_def)
  ultimately show ?thesis
    using assms(1) by (auto simp: log_inv_def)
qed

lemma BeginTransaction_log_inv:
  assumes "log_inv this" and "BeginTransaction this f now = Some (r, this1)"
  shows "log_inv this1"
  using assms
  by (auto simp: BeginTransaction_def sqlite3_exec_def Let_def log_inv_def store_wf_def
        cache_coherent_def
      split: option.splits Database.splits if_splits)

lemma EndTransaction_log_inv:
  assumes "log_inv this" and "EndTransaction this f = Some (r, this1)"
  shows "log_inv this1"
  using assms
  by (auto simp: EndTransaction_def sqlite3_exec_def Let_def log_inv_def store_wf_def
        cache_coherent_def
      split: option.splits Database.splits if_splits)

lemma Log_InsertMessage_log_inv:
  assumes "log_inv this"
    and "Log_InsertMessage this time topic type data env = Some (r, this1)"
  shows "log_inv this1"
proof -
  from assms(2) obtain a thisA where A: "EnsureActive this env = Some (a, thisA)"
    unfolding Log_InsertMessage_steps by (auto split: option.splits)
  have iA: "log_inv thisA"
    using A assms(1)
    by (auto simp: EnsureActive_def split: if_splits intro: BeginTransaction_log_inv)
  show ?thesis
  proof (cases a)
    case False
    with assms(2) A have "this1 = thisA"
      unfolding Log_InsertMessage_steps by simp
    with iA show ?thesis by simp
  next
    case True
    with assms(2) A obtain tid thisB where
      B: "TopicId thisA topic type (topic_calls env) = Some (tid, thisB)"
      unfolding Log_InsertMessage_steps by (auto split: option.splits)
    have iB: "log_inv thisB" by (rule TopicId_log_inv [OF iA B])
    show ?thesis
    proof (cases "tid <s 0")
      case neg: True
      with assms(2) A B True have "this1 = thisB"
        unfolding Log_InsertMessage_steps by simp
      with iB show ?thesis by simp
    next
      case nonneg: False
      with assms(2) A B True obtain ok thisC where
        C: "LogPrivate_InsertMessage thisB time tid data (message_calls env) = Some (ok, thisC)"
        unfolding Log_InsertMessage_steps by (auto split: option.splits)
      have iC: "log_inv thisC" by (rule LogPrivate_InsertMessage_log_inv [OF iB C])
      from assms(2) A B C True nonneg have
        "this1 = thisC \<or> (\<exists>e. EndTransaction thisC (end_fault env) = Some (e, this1))"
        unfolding Log_InsertMessage_steps by (auto split: option.splits if_splits)
      with iC show ?thesis
        by (auto intro: EndTransaction_log_inv)
    qed
  qed
qed

lemma Log_Open_log_inv:
  assumes "Log_Open Log file mode env = Inr (True, this1)"
    and "\<And>flags d. sqlite3_open_v2 env file flags = Some d \<Longrightarrow> store_wf d"
    and "connected this1"
  shows "log_inv this1"
  using assms(1,3) assms(2)
  by (auto simp: Log_Open_def Open_connect_def sqlite3_exec_def Let_def Log_def log_inv_def
        connected_def store_wf_def cache_coherent_def
      split: if_splits option.splits Database.splits)
section \<open>A cold cache on the same file\<close>

text \<open>
  C2, as stated, fails. A log opened on a new file resolves \<open>(''t'', ''A'')\<close> to 1 and
  leaves the tables of \<open>resolved_store\<close> in the file. A second log opened on that
  file starts with an empty cache; resolving the same pair there inserts a second
  topics row and returns 2. Were the pair declared unique by the schema, the second
  log's insert would be refused and the resolution would return \<open>- 1\<close>.
\<close>

theorem cold_cache_resolves_to_new_id:
  "Log_Open Log ''x.db'' READ_WRITE_CREATE (file_holds new_store)
     = Inr (True, opened_on new_store) \<and>
   map_option fst (TopicId (opened_on new_store) ''t'' ''A'' quiet_topic) = Some 1 \<and>
   map_option (map_option tables \<circ> store_of \<circ> snd)
     (TopicId (opened_on new_store) ''t'' ''A'' quiet_topic)
     = Some (Some (tables resolved_store)) \<and>
   Log_Open Log ''x.db'' READ_WRITE (file_holds resolved_store)
     = Inr (True, opened_on resolved_store) \<and>
   topics (opened_on resolved_store) (''t'', ''A'') = None \<and>
   map_option fst (TopicId (opened_on resolved_store) ''t'' ''A'' quiet_topic) = Some 2 \<and>
   map_option (map_option topics_table \<circ> store_of \<circ> snd)
     (TopicId (opened_on resolved_store) ''t'' ''A'' quiet_topic)
     = Some (Some [(1, ''t'', 1), (2, ''t'', 1)]) \<and>
   (1 :: 64 word) \<noteq> 2 \<and>
   Log_Open Log ''x.db'' READ_WRITE (file_holds (resolved_store\<lparr>topics_unique := True\<rparr>))
     = Inr (True, opened_on (resolved_store\<lparr>topics_unique := True\<rparr>)) \<and>
   map_option fst
     (TopicId (opened_on (resolved_store\<lparr>topics_unique := True\<rparr>)) ''t'' ''A'' quiet_topic)
     = Some (- 1) \<and>
   (1 :: 64 word) \<noteq> - 1"
  by (simp add: run_defs fixture_defs Log_Open_def Open_connect_def file_holds_def
        opened_on_def sample_schema_def NUL_def
        READ_def READ_WRITE_def READ_WRITE_CREATE_def store_of_def tables_def)

text \<open>
  C2, amended. On a log that satisfies the invariant, after a resolution that
  returned an id other than \<open>- 1\<close> the cache holds that id for the pair, and the id
  is the identifier of a topics row of the store with the pair's topic name and
  message type. A log with an empty cache on a store with the same tables that
  resolves the same pair does not obtain the id the first log obtained: when its
  resolution returns an id other than \<open>- 1\<close>, it has appended a further topics row
  for the pair, and the id is that row's identifier.
\<close>

theorem cache_coherent_and_cold_cache:
  assumes "log_inv this"
    and "TopicId this name type env = Some (r, this1)"
    and "r \<noteq> - 1"
  shows "topics this1 (name, type) = Some r \<and>
         (\<exists>d1 mt. db this1 = Some (Database (Some d1)) \<and>
            (sint r, name, mt) \<in> set (topics_table d1) \<and>
            (mt, type) \<in> set (message_types_table d1) \<and>
            (\<forall>other d' env' r' other1.
                topics other = Map.empty \<longrightarrow>
                db other = Some (Database (Some d')) \<longrightarrow>
                tables d' = tables d1 \<longrightarrow>
                TopicId other name type env' = Some (r', other1) \<longrightarrow>
                  r' \<noteq> r \<and>
                  (r' \<noteq> - 1 \<longrightarrow>
                    (\<exists>d2 mt'. db other1 = Some (Database (Some d2)) \<and>
                       topics_table d2 = topics_table d1 @ [(sint r', name, mt')] \<and>
                       (mt', type) \<in> set (message_types_table d2)))))"
proof -
  have cached: "topics this1 (name, type) = Some r"
    by (rule TopicId_cached_after [OF assms(2,3)])
  have "log_inv this1" by (rule TopicId_log_inv [OF assms(1,2)])
  then obtain d1 where
    conn1: "db this1 = Some (Database (Some d1))" and wf1: "store_wf d1" and
    coh1: "cache_coherent d1 (topics this1)"
    by (rule log_invE)
  from coh1 cached obtain mt where
    row: "(sint r, name, mt) \<in> set (topics_table d1)" "(mt, type) \<in> set (message_types_table d1)"
    unfolding cache_coherent_def by blast
  have cold: "r' \<noteq> r \<and>
        (\<exists>d2 mt'. db other1 = Some (Database (Some d2)) \<and>
           topics_table d2 = topics_table d1 @ [(sint r', name, mt')] \<and>
           (mt', type) \<in> set (message_types_table d2))"
    if E: "topics other = Map.empty" and D: "db other = Some (Database (Some d'))"
      and T: "tables d' = tables d1"
      and R: "TopicId other name type env' = Some (r', other1)" and N: "r' \<noteq> - 1"
    for other d' env' r' other1
  proof -
    from store_wf_tables [OF T] wf1 have "store_wf d'" by simp
    moreover from E have "cache_coherent d' (topics other)"
      by (simp add: cache_coherent_def)
    ultimately have inv': "log_inv other" using D by (rule log_invI [rotated])
    from E have miss: "topics other (name, type) = None" by simp
    from TopicId_miss_fresh [OF inv' miss R N] D obtain d2 mt' where
      F: "db other1 = Some (Database (Some d2))"
         "sint r' \<notin> fst ` set (topics_table d')"
         "topics_table d2 = topics_table d' @ [(sint r', name, mt')]"
         "(mt', type) \<in> set (message_types_table d2)"
      by auto
    from T have TT: "topics_table d' = topics_table d1" by (simp add: tables_def)
    from row(1) have "sint r \<in> fst ` set (topics_table d1)" by force
    with F(2) TT have "r' \<noteq> r" by auto
    with F TT show ?thesis by auto
  qed
  have all_cold:
    "\<forall>other d' env' r' other1.
        topics other = Map.empty \<longrightarrow>
        db other = Some (Database (Some d')) \<longrightarrow>
        tables d' = tables d1 \<longrightarrow>
        TopicId other name type env' = Some (r', other1) \<longrightarrow>
          r' \<noteq> r \<and>
          (r' \<noteq> - 1 \<longrightarrow>
            (\<exists>d2 mt'. db other1 = Some (Database (Some d2)) \<and>
               topics_table d2 = topics_table d1 @ [(sint r', name, mt')] \<and>
               (mt', type) \<in> set (message_types_table d2)))"
  proof (intro allI impI)
    fix other d' env' r' other1
    assume H: "topics other = Map.empty" "db other = Some (Database (Some d'))"
      "tables d' = tables d1"
      "TopicId other name type env' = Some (r', other1)"
    show "r' \<noteq> r \<and>
          (r' \<noteq> - 1 \<longrightarrow>
            (\<exists>d2 mt'. db other1 = Some (Database (Some d2)) \<and>
               topics_table d2 = topics_table d1 @ [(sint r', name, mt')] \<and>
               (mt', type) \<in> set (message_types_table d2)))"
    proof (cases "r' = - 1")
      case True
      with assms(3) show ?thesis by simp
    next
      case False
      from cold [OF H False] False show ?thesis by simp
    qed
  qed
  show ?thesis
  proof (intro conjI exI [of _ d1] exI [of _ mt])
    show "topics this1 (name, type) = Some r" by (rule cached)
    show "db this1 = Some (Database (Some d1))" by (rule conn1)
    show "(sint r, name, mt) \<in> set (topics_table d1)" by (rule row(1))
    show "(mt, type) \<in> set (message_types_table d1)" by (rule row(2))
    show "\<forall>other d' env' r' other1.
        topics other = Map.empty \<longrightarrow>
        db other = Some (Database (Some d')) \<longrightarrow>
        tables d' = tables d1 \<longrightarrow>
        TopicId other name type env' = Some (r', other1) \<longrightarrow>
          r' \<noteq> r \<and>
          (r' \<noteq> - 1 \<longrightarrow>
            (\<exists>d2 mt'. db other1 = Some (Database (Some d2)) \<and>
               topics_table d2 = topics_table d1 @ [(sint r', name, mt')] \<and>
               (mt', type) \<in> set (message_types_table d2)))"
      by (rule all_cold)
  qed
qed

theorem cache_coherent_and_cold_cache_witness:
  "log_inv opened_log \<and>
   TopicId opened_log ''t'' ''A'' quiet_topic = Some (1, resolved_log) \<and>
   (1 :: 64 word) \<noteq> - 1 \<and>
   topics resolved_log (''t'', ''A'') = Some 1 \<and>
   db resolved_log = Some (Database (Some resolved_store)) \<and>
   (sint (1 :: 64 word), ''t'', 1) \<in> set (topics_table resolved_store) \<and>
   (1, ''A'') \<in> set (message_types_table resolved_store) \<and>
   topics (Log\<lparr>db := Some (Database (Some resolved_store))\<rparr>) (''t'', ''A'') = None \<and>
   map_option fst
     (TopicId (Log\<lparr>db := Some (Database (Some resolved_store))\<rparr>) ''t'' ''A'' quiet_topic)
     = Some 2 \<and>
   map_option (map_option topics_table \<circ> store_of \<circ> snd)
     (TopicId (Log\<lparr>db := Some (Database (Some resolved_store))\<rparr>) ''t'' ''A'' quiet_topic)
     = Some (Some (topics_table resolved_store @ [(sint (2 :: 64 word), ''t'', 1)])) \<and>
   (2 :: 64 word) \<noteq> 1"
proof -
  have h3: "(1 :: 64 word) \<noteq> - 1" by simp
  have main:
    "topics resolved_log (''t'', ''A'') = Some 1 \<and>
     db resolved_log = Some (Database (Some resolved_store)) \<and>
     (sint (1 :: 64 word), ''t'', 1) \<in> set (topics_table resolved_store) \<and>
     (1, ''A'') \<in> set (message_types_table resolved_store) \<and>
     topics (Log\<lparr>db := Some (Database (Some resolved_store))\<rparr>) (''t'', ''A'') = None \<and>
     map_option fst
       (TopicId (Log\<lparr>db := Some (Database (Some resolved_store))\<rparr>) ''t'' ''A'' quiet_topic)
       = Some 2 \<and>
     map_option (map_option topics_table \<circ> store_of \<circ> snd)
       (TopicId (Log\<lparr>db := Some (Database (Some resolved_store))\<rparr>) ''t'' ''A'' quiet_topic)
       = Some (Some (topics_table resolved_store @ [(sint (2 :: 64 word), ''t'', 1)])) \<and>
     (2 :: 64 word) \<noteq> 1"
    by (simp add: run_defs fixture_defs store_of_def)
  show ?thesis
    using cache_coherent_and_cold_cache [OF log_inv_opened_log TopicId_opened_log h3]
    by (simp (no_asm) only: main log_inv_opened_log TopicId_opened_log h3 simp_thms)
qed
section \<open>Repeated resolutions during the life of a log\<close>

lemma TopicId_cache_kept:
  assumes "TopicId this n t env = Some (x, this1)" and "topics this k = Some r"
  shows "topics this1 k = Some r"
proof (cases "k = (n, t)")
  case True
  with assms TopicId_hit [of this n t r env] show ?thesis by simp
next
  case False
  from TopicId_cache_other [OF assms(1) False] assms(2) show ?thesis by simp
qed

lemma BeginTransaction_topics:
  "BeginTransaction this f now = Some (x, this1) \<Longrightarrow> topics this1 = topics this"
  by (auto simp: BeginTransaction_def Let_def case_prod_beta split: option.splits if_splits)

lemma EndTransaction_topics:
  "EndTransaction this f = Some (x, this1) \<Longrightarrow> topics this1 = topics this"
  by (auto simp: EndTransaction_def Let_def case_prod_beta split: option.splits if_splits)

lemma Log_Open_topics:
  "Log_Open this file mode env = Inr (x, this1) \<Longrightarrow> topics this1 = topics this"
  by (auto simp: Log_Open_def Open_connect_def Let_def case_prod_beta split: if_splits)

lemma Log_InsertMessage_cache_kept:
  assumes "Log_InsertMessage this time n t data env = Some (x, this1)"
    and "topics this k = Some r"
  shows "topics this1 k = Some r"
proof -
  from assms(1) obtain a thisA where A: "EnsureActive this env = Some (a, thisA)"
    unfolding Log_InsertMessage_steps by (auto split: option.splits)
  have kA: "topics thisA k = Some r"
    using A assms(2)
    by (auto simp: EnsureActive_def split: if_splits dest: BeginTransaction_topics)
  show ?thesis
  proof (cases a)
    case False
    with assms(1) A have "this1 = thisA"
      unfolding Log_InsertMessage_steps by simp
    with kA show ?thesis by simp
  next
    case True
    with assms(1) A obtain tid thisB where
      B: "TopicId thisA n t (topic_calls env) = Some (tid, thisB)"
      unfolding Log_InsertMessage_steps by (auto split: option.splits)
    have kB: "topics thisB k = Some r" by (rule TopicId_cache_kept [OF B kA])
    show ?thesis
    proof (cases "tid <s 0")
      case neg: True
      with assms(1) A B True have "this1 = thisB"
        unfolding Log_InsertMessage_steps by simp
      with kB show ?thesis by simp
    next
      case nonneg: False
      with assms(1) A B True obtain ok thisC where
        C: "LogPrivate_InsertMessage thisB time tid data (message_calls env) = Some (ok, thisC)"
        unfolding Log_InsertMessage_steps by (auto split: option.splits)
      from LogPrivate_InsertMessage_keeps [OF C] kB have kC: "topics thisC k = Some r"
        by simp
      from assms(1) A B C True nonneg have
        "this1 = thisC \<or> (\<exists>e. EndTransaction thisC (end_fault env) = Some (e, this1))"
        unfolding Log_InsertMessage_steps by (auto split: option.splits if_splits)
      with kC show ?thesis
        by (auto dest: EndTransaction_topics)
    qed
  qed
qed

lemma call_cache_kept:
  assumes "call this c = Some this1" and "topics this k = Some r"
  shows "topics this1 k = Some r"
proof (cases c)
  case (Call_BeginTransaction f now)
  with assms show ?thesis by (auto dest: BeginTransaction_topics)
next
  case (Call_EndTransaction f)
  with assms show ?thesis by (auto dest: EndTransaction_topics)
next
  case (Call_TopicId n t env)
  with assms show ?thesis by (auto dest: TopicId_cache_kept)
next
  case (Call_LogPrivate_InsertMessage time topic data env)
  with assms show ?thesis by (auto dest: LogPrivate_InsertMessage_keeps)
next
  case (Call_Open path mode env)
  with assms show ?thesis by (auto split: sum.splits dest: Log_Open_topics)
next
  case (Call_InsertMessage time n t data env)
  with assms show ?thesis by (auto dest: Log_InsertMessage_cache_kept)
qed

lemma calls_cache_kept:
  assumes "calls this cs = Some this1" and "topics this k = Some r"
  shows "topics this1 k = Some r"
  using assms
proof (induction cs arbitrary: this)
  case Nil
  then show ?case by simp
next
  case (Cons c cs)
  from Cons.prems(1) obtain thisA where
    A: "call this c = Some thisA" and R: "calls thisA cs = Some this1"
    by (auto split: option.splits)
  from Cons.IH [OF R call_cache_kept [OF A Cons.prems(2)]] show ?case .
qed

lemma step_message_type_rows:
  assumes "type \<in> snd ` set (message_types_table d)"
  shows "pair_rows (snd (step_message_type d st f)) name type = pair_rows d name type \<and>
         type_rows (snd (step_message_type d st f)) type = type_rows d type"
  using assms
  by (auto simp: step_message_type_def pair_rows_def type_rows_def
      split: option.splits sqlite_value.splits
      intro!: filter_cong)

lemma step_topic_rows:
  assumes "store_wf d" and "st 1 = Some (SqlText t)" and "st 2 = Some (SqlText n)"
    and "(n, t) \<noteq> (name, type)"
  shows "pair_rows (snd (step_topic d st f)) name type = pair_rows d name type \<and>
         type_rows (snd (step_topic d st f)) type = type_rows d type"
proof (cases "snd (step_topic d st f) = d")
  case True
  then show ?thesis by simp
next
  case False
  then obtain r rest i where
    F: "filter (\<lambda>r. snd r = t) (message_types_table d) = r # rest" and
    S: "snd (step_topic d st f)
          = d\<lparr>topics_table := topics_table d @ [(i, n, fst r)], last_rowid := i\<rparr>"
    using assms(2,3)
    by (auto simp: step_topic_def split: option.splits list.splits if_splits)
  from F have "r \<in> set (filter (\<lambda>r. snd r = t) (message_types_table d))" by simp
  then have R: "(fst r, t) \<in> set (message_types_table d)" by auto
  have "\<not> (n = name \<and> (fst r, type) \<in> set (message_types_table d))"
  proof
    assume H: "n = name \<and> (fst r, type) \<in> set (message_types_table d)"
    from assms(1) have "distinct (map fst (message_types_table d))"
      by (simp add: store_wf_def)
    from eq_key_imp_eq_value [OF this R] H have "t = type" by blast
    with H assms(4) show False by simp
  qed
  with S show ?thesis
    by (simp add: pair_rows_def type_rows_def)
qed

lemma rows_of_connected:
  "db this = Some (Database (Some d)) \<Longrightarrow>
     rows_of this name type = Some (pair_rows d name type, type_rows d type)"
  by (simp add: rows_of_def store_of_def)

lemma TopicId_rows_kept:
  assumes "log_inv this" and "topics this (name, type) = Some r"
    and "TopicId this n t env = Some (x, this1)"
  shows "rows_of this1 name type = rows_of this name type"
proof (cases "topics this (n, t)")
  case (Some c)
  with assms(3) TopicId_hit [OF Some, of env] have "this1 = this" by simp
  then show ?thesis by simp
next
  case None
  with assms(2) have other: "(n, t) \<noteq> (name, type)" by auto
  from assms(1) obtain d where
    conn: "db this = Some (Database (Some d))" and wf: "store_wf d" and
    coh: "cache_coherent d (topics this)"
    by (rule log_invE)
  from coh assms(2) have present: "type \<in> snd ` set (message_types_table d)"
    unfolding cache_coherent_def by force
  define s1 where "s1 = step_message_type d [1 \<mapsto> SqlText t] (step_message_type_fault env)"
  define s2 where "s2 = step_topic (snd s1) [1 \<mapsto> SqlText t, 2 \<mapsto> SqlText n]
                           (step_topic_fault env)"
  from step_message_type_rows [OF present, of "[1 \<mapsto> SqlText t]"
      "step_message_type_fault env" name]
  have R1: "pair_rows (snd s1) name type = pair_rows d name type"
    "type_rows (snd s1) type = type_rows d type"
    by (simp_all add: s1_def)
  from step_message_type_wf [OF wf, of "[1 \<mapsto> SqlText t]" "step_message_type_fault env"]
  have W1: "store_wf (snd s1)" by (simp add: s1_def)
  from step_topic_rows [OF W1 _ _ other, of "[1 \<mapsto> SqlText t, 2 \<mapsto> SqlText n]"
      "step_topic_fault env"] R1
  have R2: "pair_rows (snd s2) name type = pair_rows d name type"
    "type_rows (snd s2) type = type_rows d type"
    by (simp_all add: s2_def)
  from assms(3) have "db this1 = db this \<or> db this1 = Some (Database (Some (snd s1)))
      \<or> db this1 = Some (Database (Some (snd s2)))"
    unfolding TopicId_miss [OF None conn] s1_def s2_def
    by (auto simp: Let_def split: if_splits)
  with conn R1 R2 show ?thesis
    by (auto simp: rows_of_connected)
qed

lemma LogPrivate_InsertMessage_rows_kept:
  assumes "LogPrivate_InsertMessage this time topic data env = Some (x, this1)"
  shows "rows_of this1 name type = rows_of this name type"
  using assms step_message_wf
  by (auto simp: LogPrivate_InsertMessage_def sqlite3_bind_int_def sqlite3_bind_blob_def
        Let_def case_prod_beta rows_of_def store_of_def pair_rows_def type_rows_def
      split: option.splits if_splits)

lemma BeginTransaction_rows_kept:
  assumes "BeginTransaction this f now = Some (x, this1)"
  shows "rows_of this1 name type = rows_of this name type"
  using assms
  by (auto simp: BeginTransaction_def sqlite3_exec_def Let_def rows_of_def store_of_def
        pair_rows_def type_rows_def
      split: option.splits if_splits)

lemma EndTransaction_rows_kept:
  assumes "EndTransaction this f = Some (x, this1)"
  shows "rows_of this1 name type = rows_of this name type"
  using assms
  by (auto simp: EndTransaction_def sqlite3_exec_def Let_def rows_of_def store_of_def
        pair_rows_def type_rows_def
      split: option.splits if_splits)

lemma Log_InsertMessage_rows_kept:
  assumes "log_inv this" and "topics this (name, type) = Some r"
    and "Log_InsertMessage this time n t data env = Some (x, this1)"
  shows "rows_of this1 name type = rows_of this name type"
proof -
  from assms(3) obtain a thisA where A: "EnsureActive this env = Some (a, thisA)"
    unfolding Log_InsertMessage_steps by (auto split: option.splits)
  have sA: "log_inv thisA" "topics thisA (name, type) = Some r"
    "rows_of thisA name type = rows_of this name type"
    using A assms(1,2)
    by (auto simp: EnsureActive_def split: if_splits
        dest: BeginTransaction_topics BeginTransaction_rows_kept
        intro: BeginTransaction_log_inv)
  show ?thesis
  proof (cases a)
    case False
    with assms(3) A have "this1 = thisA"
      unfolding Log_InsertMessage_steps by simp
    with sA show ?thesis by simp
  next
    case True
    with assms(3) A obtain tid thisB where
      B: "TopicId thisA n t (topic_calls env) = Some (tid, thisB)"
      unfolding Log_InsertMessage_steps by (auto split: option.splits)
    have sB: "rows_of thisB name type = rows_of this name type"
      using TopicId_rows_kept [OF sA(1,2) B] sA(3) by simp
    show ?thesis
    proof (cases "tid <s 0")
      case neg: True
      with assms(3) A B True have "this1 = thisB"
        unfolding Log_InsertMessage_steps by simp
      with sB show ?thesis by simp
    next
      case nonneg: False
      with assms(3) A B True obtain ok thisC where
        C: "LogPrivate_InsertMessage thisB time tid data (message_calls env) = Some (ok, thisC)"
        unfolding Log_InsertMessage_steps by (auto split: option.splits)
      have sC: "rows_of thisC name type = rows_of this name type"
        using LogPrivate_InsertMessage_rows_kept [OF C] sB by simp
      from assms(3) A B C True nonneg have
        "this1 = thisC \<or> (\<exists>e. EndTransaction thisC (end_fault env) = Some (e, this1))"
        unfolding Log_InsertMessage_steps by (auto split: option.splits if_splits)
      then show ?thesis
      proof
        assume "this1 = thisC"
        with sC show ?thesis by simp
      next
        assume "\<exists>e. EndTransaction thisC (end_fault env) = Some (e, this1)"
        then obtain e where "EndTransaction thisC (end_fault env) = Some (e, this1)" ..
        from EndTransaction_rows_kept [OF this, of name type] sC show ?thesis by simp
      qed
    qed
  qed
qed

lemma call_pair_kept:
  assumes "log_inv this" and "topics this (name, type) = Some r"
    and "call this c = Some this1"
  shows "log_inv this1 \<and> rows_of this1 name type = rows_of this name type"
proof (cases c)
  case (Call_BeginTransaction f now)
  with assms show ?thesis
    by (auto dest: BeginTransaction_rows_kept intro: BeginTransaction_log_inv)
next
  case (Call_EndTransaction f)
  with assms show ?thesis
    by (auto dest: EndTransaction_rows_kept intro: EndTransaction_log_inv)
next
  case (Call_TopicId n t env)
  with assms show ?thesis
    by (auto dest: TopicId_rows_kept intro: TopicId_log_inv)
next
  case (Call_LogPrivate_InsertMessage time topic data env)
  with assms show ?thesis
    by (auto dest: LogPrivate_InsertMessage_rows_kept intro: LogPrivate_InsertMessage_log_inv)
next
  case (Call_Open path mode env)
  from assms(1) have "db this \<noteq> None" by (auto elim: log_invE)
  from Log_Open_already_open [OF this, of path mode env] Call_Open assms(3)
  have "this1 = this" by simp
  with assms(1) show ?thesis by simp
next
  case (Call_InsertMessage time n t data env)
  with assms show ?thesis
    by (auto dest: Log_InsertMessage_rows_kept intro: Log_InsertMessage_log_inv)
qed

lemma calls_pair_kept:
  assumes "calls this cs = Some this1" and "log_inv this"
    and "topics this (name, type) = Some r"
  shows "log_inv this1 \<and> rows_of this1 name type = rows_of this name type"
  using assms
proof (induction cs arbitrary: this)
  case Nil
  then show ?case by simp
next
  case (Cons c cs)
  from Cons.prems(1) obtain thisA where
    A: "call this c = Some thisA" and R: "calls thisA cs = Some this1"
    by (auto split: option.splits)
  from call_pair_kept [OF Cons.prems(2,3) A] have
    sA: "log_inv thisA" "rows_of thisA name type = rows_of this name type" by simp_all
  from Cons.IH [OF R sA(1) call_cache_kept [OF A Cons.prems(3)]] sA(2)
  show ?case by simp
qed

text \<open>
  C9. After a resolution of a pair that returned an id other than \<open>- 1\<close>, whatever
  is called on the log afterwards (the methods of \<^verbatim>\<open>LogPrivate\<close>, \<^verbatim>\<open>Log::Open\<close>,
  \<^verbatim>\<open>Log::InsertMessage\<close>, for this pair or for others, in any number and order),
  every later resolution of the pair by that log, under whatever surroundings,
  returns that id and changes nothing, the store included. The first resolution,
  when it missed the cache, appended exactly one topics row, carrying the id
  returned, and at most one message type row, the one for the type when the table
  did not have it; when it hit the cache it changed nothing either. On a log that
  satisfies the invariant, the calls in between leave the rows of the pair as the
  first resolution left them: the topics rows of the name and type, and the message
  type rows of the type.
\<close>

theorem TopicId_repeated_resolution:
  assumes "TopicId this name type env = Some (r, this1)" and "r \<noteq> - 1"
    and "calls this1 cs = Some this2"
  shows "TopicId this2 name type env2 = Some (r, this2) \<and>
         TopicId_repeat this2 name type envs = Some (replicate (length envs) r, this2) \<and>
         (topics this (name, type) \<noteq> None \<longrightarrow> this1 = this) \<and>
         (topics this (name, type) = None \<longrightarrow>
            (\<exists>d d1 i mt. db this = Some (Database (Some d)) \<and>
               db this1 = Some (Database (Some d1)) \<and>
               r = word_of_int i \<and>
               topics_table d1 = topics_table d @ [(i, name, mt)] \<and>
               (mt, type) \<in> set (message_types_table d1) \<and>
               (message_types_table d1 = message_types_table d \<or>
                message_types_table d1 = message_types_table d @ [(mt, type)]))) \<and>
         (log_inv this \<longrightarrow> rows_of this2 name type = rows_of this1 name type)"
proof (intro conjI impI)
  have cached1: "topics this1 (name, type) = Some r"
    by (rule TopicId_cached_after [OF assms(1,2)])
  have cached2: "topics this2 (name, type) = Some r"
    by (rule calls_cache_kept [OF assms(3) cached1])
  show "TopicId this2 name type env2 = Some (r, this2)"
    by (rule TopicId_hit [OF cached2])
  show "TopicId_repeat this2 name type envs = Some (replicate (length envs) r, this2)"
    by (rule TopicId_repeat_cached [OF cached2])
  {
    assume "log_inv this"
    then have "log_inv this1" by (rule TopicId_log_inv [OF _ assms(1)])
    from calls_pair_kept [OF assms(3) this cached1]
    show "rows_of this2 name type = rows_of this1 name type" by simp
  }
next
  assume "topics this (name, type) \<noteq> None"
  then obtain c where "topics this (name, type) = Some c" by auto
  from TopicId_hit [OF this, of env] assms(1) show "this1 = this" by simp
next
  assume miss: "topics this (name, type) = None"
  from TopicId_miss_success [OF miss assms(1,2)] obtain d dm d1 i mt where
    F: "db this = Some (Database (Some d))"
       "step_message_type d [1 \<mapsto> SqlText type] (step_message_type_fault env)
          = (SQLITE_DONE, dm)"
       "(mt, type) \<in> set (message_types_table dm)"
       "topics_table d1 = topics_table d @ [(i, name, mt)]"
       "message_types_table d1 = message_types_table dm"
       "r = word_of_int i"
       "this1 = this\<lparr>db := Some (Database (Some d1)),
                    topics := (topics this)((name, type) \<mapsto> r)\<rparr>"
    by blast
  from step_message_type_done [OF F(2)] have
    "dm = d \<or> (\<exists>j. type \<notin> snd ` set (message_types_table d) \<and>
                    message_types_table dm = message_types_table d @ [(j, type)])"
    by blast
  then have "message_types_table dm = message_types_table d \<or>
             message_types_table dm = message_types_table d @ [(mt, type)]"
  proof
    assume "dm = d" then show ?thesis by simp
  next
    assume "\<exists>j. type \<notin> snd ` set (message_types_table d) \<and>
                    message_types_table dm = message_types_table d @ [(j, type)]"
    then obtain j where J: "type \<notin> snd ` set (message_types_table d)"
      "message_types_table dm = message_types_table d @ [(j, type)]" by blast
    with F(3) have "mt = j" by force
    with J show ?thesis by simp
  qed
  with F show "\<exists>d d1 i mt. db this = Some (Database (Some d)) \<and>
               db this1 = Some (Database (Some d1)) \<and>
               r = word_of_int i \<and>
               topics_table d1 = topics_table d @ [(i, name, mt)] \<and>
               (mt, type) \<in> set (message_types_table d1) \<and>
               (message_types_table d1 = message_types_table d \<or>
                message_types_table d1 = message_types_table d @ [(mt, type)])"
    by (intro exI [of _ d] exI [of _ d1] exI [of _ i] exI [of _ mt]) auto
qed

lemma calls_resolved_log: "calls resolved_log later_calls = Some later_log"
  by (simp add: run_defs fixture_defs later_calls_def later_log_def)

theorem TopicId_repeated_resolution_witness:
  "TopicId opened_log ''t'' ''A'' quiet_topic = Some (1, resolved_log) \<and>
   (1 :: 64 word) \<noteq> - 1 \<and>
   calls resolved_log later_calls = Some later_log \<and>
   TopicId later_log ''t'' ''A'' (quiet_topic\<lparr>compile_topic := False\<rparr>) = Some (1, later_log) \<and>
   TopicId_repeat later_log ''t'' ''A'' [quiet_topic, quiet_topic\<lparr>compile_topic := False\<rparr>]
     = Some ([1, 1], later_log) \<and>
   topics opened_log (''t'', ''A'') = None \<and>
   db opened_log = Some (Database (Some new_store)) \<and>
   db resolved_log = Some (Database (Some resolved_store)) \<and>
   topics_table resolved_store = topics_table new_store @ [(1, ''t'', 1)] \<and>
   message_types_table resolved_store = message_types_table new_store @ [(1, ''A'')] \<and>
   log_inv opened_log \<and>
   rows_of resolved_log ''t'' ''A'' = Some ([(1, ''t'', 1)], [(1, ''A'')]) \<and>
   rows_of later_log ''t'' ''A'' = Some ([(1, ''t'', 1)], [(1, ''A'')]) \<and>
   map_option topics_table (store_of later_log) = Some [(1, ''t'', 1), (2, ''u'', 2)]"
proof -
  have h2: "(1 :: 64 word) \<noteq> - 1" by simp
  have main:
    "TopicId later_log ''t'' ''A'' (quiet_topic\<lparr>compile_topic := False\<rparr>) = Some (1, later_log) \<and>
     TopicId_repeat later_log ''t'' ''A'' [quiet_topic, quiet_topic\<lparr>compile_topic := False\<rparr>]
       = Some ([1, 1], later_log) \<and>
     topics opened_log (''t'', ''A'') = None \<and>
     db opened_log = Some (Database (Some new_store)) \<and>
     db resolved_log = Some (Database (Some resolved_store)) \<and>
     topics_table resolved_store = topics_table new_store @ [(1, ''t'', 1)] \<and>
     message_types_table resolved_store = message_types_table new_store @ [(1, ''A'')] \<and>
     rows_of resolved_log ''t'' ''A'' = Some ([(1, ''t'', 1)], [(1, ''A'')]) \<and>
     rows_of later_log ''t'' ''A'' = Some ([(1, ''t'', 1)], [(1, ''A'')]) \<and>
     map_option topics_table (store_of later_log) = Some [(1, ''t'', 1), (2, ''u'', 2)]"
    by (simp add: TopicId_def fixture_defs later_log_def rows_of_def store_of_def
          pair_rows_def type_rows_def)
  show ?thesis
    using TopicId_repeated_resolution [OF TopicId_opened_log h2 calls_resolved_log,
        where envs = "[quiet_topic, quiet_topic\<lparr>compile_topic := False\<rparr>]"
          and ?env2.0 = "quiet_topic\<lparr>compile_topic := False\<rparr>"]
    by (simp (no_asm) only: main TopicId_opened_log h2 calls_resolved_log log_inv_opened_log
          simp_thms)
qed

end
